theory Spec2Isabelle
  imports Main "HOL-Library.Word" "HOL-Library.Char_ord" "HOL-Library.List_Lexorder"
begin

section \<open>Python values shared by all notebook cells\<close>

text \<open>
  The notebook \<^verbatim>\<open>Transfer_Learning_Solution.ipynb\<close> is a sequence of cells run top to
  bottom. Every cell that can raise is modelled as a function into \<open>py_error + 'a\<close>,
  with \<open>Inl\<close> the exception that stops the cell.
\<close>

datatype py_error =
  ZeroDivisionError | ValueError | TypeError | AttributeError | IOError | CsvError

text \<open>
  \<^verbatim>\<open>range(start, stop, step)\<close> on Python integers: a zero step raises
  \<^verbatim>\<open>ValueError\<close>; otherwise the length is the one CPython computes.
\<close>

definition py_range :: "int \<Rightarrow> int \<Rightarrow> int \<Rightarrow> py_error + int list" where
  "py_range start stop step =
     (if step = 0 then Inl ValueError
      else if 0 < step then
        Inr (map (\<lambda>k. start + int k * step) [0..<nat ((stop - start + step - 1) div step)])
      else
        Inr (map (\<lambda>k. start + int k * step) [0..<nat ((start - stop - step - 1) div (- step))]))"

text \<open>
  Slicing along the first axis, \<^verbatim>\<open>x[a:b]\<close> and \<^verbatim>\<open>x[a:]\<close>: a negative bound counts
  from the end and every bound is clamped into \<open>[0, len(x)]\<close>.
\<close>

definition slice_bound :: "'a list \<Rightarrow> int \<Rightarrow> nat" where
  "slice_bound xs i =
     (let n = int (length xs) in nat (if i < 0 then max 0 (n + i) else min n i))"

definition py_slice :: "'a list \<Rightarrow> int \<Rightarrow> int \<Rightarrow> 'a list" where
  "py_slice xs a b = take (slice_bound xs b - slice_bound xs a) (drop (slice_bound xs a) xs)"

definition py_slice_from :: "'a list \<Rightarrow> int \<Rightarrow> 'a list" where
  "py_slice_from xs a = drop (slice_bound xs a) xs"

section \<open>Minibatches: \<^verbatim>\<open>get_batches\<close>\<close>

text \<open>
  \<^verbatim>\<open>
  def get_batches(x, y, n_batches=10):
      batch_size = len(x)//n_batches
      for ii in range(0, n_batches*batch_size, batch_size):
          if ii != (n_batches-1)*batch_size:
              X, Y = x[ii: ii+batch_size], y[ii: ii+batch_size]
          else:
              X, Y = x[ii:], y[ii:]
          yield X, Y
  \<close>
  The generator is modelled by the list of the pairs it yields. The two places where it
  can raise (\<^verbatim>\<open>//\<close> by zero, \<^verbatim>\<open>range\<close> with a zero step) come before the first
  \<^verbatim>\<open>yield\<close>, so an error means that no batch was yielded.
\<close>

definition get_batches :: "'a list \<Rightarrow> 'b list \<Rightarrow> int \<Rightarrow> py_error + ('a list \<times> 'b list) list" where
  "get_batches x y n_batches =
     (if n_batches = 0 then Inl ZeroDivisionError
      else
        let batch_size = int (length x) div n_batches in
        case py_range 0 (n_batches * batch_size) batch_size of
          Inl e \<Rightarrow> Inl e
        | Inr iis \<Rightarrow>
            Inr (map (\<lambda>ii.
                   if ii \<noteq> (n_batches - 1) * batch_size
                   then (py_slice x ii (ii + batch_size), py_slice y ii (ii + batch_size))
                   else (py_slice_from x ii, py_slice_from y ii)) iis))"

section \<open>The feature-cache pipeline: running the images through the network in batches\<close>

text \<open>
  \<^verbatim>\<open>
  batch_size = 10
  labels = []
  batch = []
  codes = None
  with tf.Session() as sess:
      ...
      for each in classes:
          class_path = data_dir + each
          files = os.listdir(class_path)
          for ii, file in enumerate(files, 1):
              img = utils.load_image(os.path.join(class_path, file))
              batch.append(img.reshape((1, 224, 224, 3)))
              labels.append(each)
              if ii % batch_size == 0 or ii == len(files):
                  images = np.concatenate(batch)
                  feed_dict = {input_: images}
                  codes_batch = sess.run(vgg.relu6, feed_dict=feed_dict)
                  if codes is None:
                      codes = codes_batch
                  else:
                      codes = np.concatenate((codes, codes_batch))
                  batch = []
  \<close>
  The cell's variables are the fields of \<open>pipe_state\<close>. An array with a leading sample
  axis is the list of its rows, so \<^verbatim>\<open>np.concatenate\<close> along that axis is \<open>@\<close>. The
  field \<open>submitted\<close> is not a variable of the cell: it records the effect of the calls
  \<^verbatim>\<open>sess.run(vgg.relu6, ...)\<close>, one entry per call, holding the images of that call.

  The pretrained network and the image loader are external collaborators and are
  parameters of the model: \<open>run\<close> maps the images of one batch to the rows returned for
  it, \<open>load_image\<close> maps a path to the image, or to \<open>None\<close> when loading raises.
  The directory tree is the list of the class directories in listing order, each with
  its file listing (what \<^verbatim>\<open>os.listdir\<close> returns).
\<close>

record ('img, 'code) pipe_state =
  codes :: "'code list option"
  labels :: "string list"
  batch :: "'img list"
  submitted :: "'img list list"

text \<open>\<^verbatim>\<open>os.path.join(a, b)\<close> for two components (\<^verbatim>\<open>posixpath.join\<close>).\<close>

definition os_path_join :: "string \<Rightarrow> string \<Rightarrow> string" where
  "os_path_join a b =
     (if b \<noteq> [] \<and> hd b = CHR ''/'' then b
      else if a = [] \<or> last a = CHR ''/'' then a @ b
      else a @ ''/'' @ b)"

text \<open>The body of \<^verbatim>\<open>if ii % batch_size == 0 or ii == len(files)\<close>.\<close>

definition run_batch :: "('img list \<Rightarrow> 'code list) \<Rightarrow> ('img, 'code) pipe_state \<Rightarrow> ('img, 'code) pipe_state" where
  "run_batch run s =
     (let images = batch s;
          codes_batch = run images
      in s\<lparr>codes := (case codes s of None \<Rightarrow> Some codes_batch
                                   | Some c \<Rightarrow> Some (c @ codes_batch)),
            batch := [],
            submitted := submitted s @ [images]\<rparr>)"

text \<open>
  The inner loop \<^verbatim>\<open>for ii, file in enumerate(files, 1)\<close>: \<open>n\<close> is \<^verbatim>\<open>len(files)\<close> of
  the whole listing, \<open>ii\<close> the running index, the list argument the files still to visit.
\<close>

fun files_loop ::
  "('img list \<Rightarrow> 'code list) \<Rightarrow> (string \<Rightarrow> 'img option) \<Rightarrow> int \<Rightarrow> string \<Rightarrow> string \<Rightarrow> nat
     \<Rightarrow> nat \<Rightarrow> string list \<Rightarrow> ('img, 'code) pipe_state \<Rightarrow> py_error + ('img, 'code) pipe_state" where
  "files_loop run load_image batch_size each class_path n ii [] s = Inr s"
| "files_loop run load_image batch_size each class_path n ii (file # rest) s =
     (case load_image (os_path_join class_path file) of
        None \<Rightarrow> Inl IOError
      | Some img \<Rightarrow>
          let s1 = s\<lparr>batch := batch s @ [img], labels := labels s @ [each]\<rparr> in
          if batch_size = 0 then Inl ZeroDivisionError
          else if int ii mod batch_size = 0 \<or> ii = n
          then files_loop run load_image batch_size each class_path n (Suc ii) rest (run_batch run s1)
          else files_loop run load_image batch_size each class_path n (Suc ii) rest s1)"

text \<open>The outer loop \<^verbatim>\<open>for each in classes\<close>.\<close>

fun classes_loop ::
  "('img list \<Rightarrow> 'code list) \<Rightarrow> (string \<Rightarrow> 'img option) \<Rightarrow> int \<Rightarrow> string
     \<Rightarrow> (string \<times> string list) list \<Rightarrow> ('img, 'code) pipe_state \<Rightarrow> py_error + ('img, 'code) pipe_state" where
  "classes_loop run load_image batch_size data_dir [] s = Inr s"
| "classes_loop run load_image batch_size data_dir ((each, files) # rest) s =
     (case files_loop run load_image batch_size each (data_dir @ each) (length files) 1 files s of
        Inl e \<Rightarrow> Inl e
      | Inr s' \<Rightarrow> classes_loop run load_image batch_size data_dir rest s')"

definition compute_codes ::
  "('img list \<Rightarrow> 'code list) \<Rightarrow> (string \<Rightarrow> 'img option) \<Rightarrow> int \<Rightarrow> string
     \<Rightarrow> (string \<times> string list) list \<Rightarrow> py_error + ('img, 'code) pipe_state" where
  "compute_codes run load_image batch_size data_dir tree =
     classes_loop run load_image batch_size data_dir tree
       \<lparr>codes = None, labels = [], batch = [], submitted = []\<rparr>"

text \<open>
  Reference notions the properties are stated against. \<open>class_images\<close> is the list of
  the images of one class in listing order; \<open>samples\<close> is the accumulation order of the
  whole tree, each image with the name of its class directory; \<open>chunks n\<close> cuts a list
  into consecutive pieces of \<open>n\<close> elements, the last one holding what is left.
\<close>

definition class_images :: "(string \<Rightarrow> 'img option) \<Rightarrow> string \<Rightarrow> string list \<Rightarrow> 'img list" where
  "class_images load_image class_path files =
     map (\<lambda>file. the (load_image (os_path_join class_path file))) files"

definition samples ::
  "(string \<Rightarrow> 'img option) \<Rightarrow> string \<Rightarrow> (string \<times> string list) list \<Rightarrow> (string \<times> 'img) list" where
  "samples load_image data_dir tree =
     concat (map (\<lambda>(each, files).
                    map (\<lambda>img. (each, img)) (class_images load_image (data_dir @ each) files))
                 tree)"

definition all_load :: "(string \<Rightarrow> 'img option) \<Rightarrow> string \<Rightarrow> string list \<Rightarrow> bool" where
  "all_load load_image class_path files =
     list_all (\<lambda>file. load_image (os_path_join class_path file) \<noteq> None) files"

fun chunks :: "nat \<Rightarrow> 'a list \<Rightarrow> 'a list list" where
  "chunks n xs = (if n = 0 \<or> xs = [] then [] else take n xs # chunks n (drop n xs))"

declare chunks.simps [simp del]

text \<open>
  The rows of \<^verbatim>\<open>codes\<close> (none while it is still \<^verbatim>\<open>None\<close>), and the value of
  \<^verbatim>\<open>codes\<close> after the batches \<open>bs\<close> have been run, one call of the network each.
\<close>

definition code_rows :: "'code list option \<Rightarrow> 'code list" where
  "code_rows c = (case c of None \<Rightarrow> [] | Some rows \<Rightarrow> rows)"

definition codes_after ::
  "('img list \<Rightarrow> 'code list) \<Rightarrow> 'code list option \<Rightarrow> 'img list list \<Rightarrow> 'code list option" where
  "codes_after run c bs =
     foldl (\<lambda>c images. case c of None \<Rightarrow> Some (run images)
                                  | Some rows \<Rightarrow> Some (rows @ run images)) c bs"

text \<open>
  \<open>class_batches\<close> is the expected log of network calls for a tree: class after
  class, the images of the class cut into pieces of the batch size. \<open>tree_loads\<close>
  says that every listed file of every class can be loaded.
\<close>

definition class_batches ::
  "(string \<Rightarrow> 'img option) \<Rightarrow> nat \<Rightarrow> string \<Rightarrow> (string \<times> string list) list \<Rightarrow> 'img list list" where
  "class_batches load_image bs data_dir tree =
     concat (map (\<lambda>(each, files). chunks bs (class_images load_image (data_dir @ each) files)) tree)"

definition tree_loads :: "(string \<Rightarrow> 'img option) \<Rightarrow> string \<Rightarrow> (string \<times> string list) list \<Rightarrow> bool" where
  "tree_loads load_image data_dir tree =
     list_all (\<lambda>(each, files). all_load load_image (data_dir @ each) files) tree"

section \<open>The feature cache on disk\<close>

text \<open>
  \<^verbatim>\<open>
  with open('codes', 'w') as f:
      codes.tofile(f)
  with open('labels', 'w') as f:
      writer = csv.writer(f, delimiter='\n')
      writer.writerow(labels)
  \<close>
  \<^verbatim>\<open>
  with open('labels') as f:
      reader = csv.reader(f, delimiter='\n')
      labels = np.array([each for each in reader if len(each) > 0]).squeeze()
  with open('codes') as f:
      codes = np.fromfile(f, dtype=np.float32)
      codes = codes.reshape((len(labels), -1))
  \<close>
  A 32-bit float is its bit pattern: \<^verbatim>\<open>tofile\<close> and \<^verbatim>\<open>fromfile\<close> copy the four bytes
  of every element unchanged, so no rounding takes place and equality of values is
  equality of bit patterns. The file \<^verbatim>\<open>codes\<close> is the sequence of floats it holds, in
  row-major order and without a header; the file \<^verbatim>\<open>labels\<close> is its text, one
  character of the model for one character of the Python string. Files are opened as
  on a POSIX system, where writing in text mode leaves line feeds as they are.
\<close>

type_synonym float32 = "32 word"

record cache_files =
  codes_file :: "float32 list"
  labels_file :: string

abbreviation LF :: char where "LF \<equiv> CHR 0x0A"
abbreviation CR :: char where "CR \<equiv> CHR 0x0D"

text \<open>
  The dialect of both the writer and the reader: the \<^verbatim>\<open>excel\<close> defaults (quote
  character \<^verbatim>\<open>"\<close>, doubled quotes, minimal quoting, no escape character, line
  terminator CR LF) with the delimiter replaced by a line feed.
\<close>

abbreviation delimiter :: char where "delimiter \<equiv> LF"
abbreviation quotechar :: char where "quotechar \<equiv> CHR 0x22"

subsection \<open>\<^verbatim>\<open>csv.writer(f, delimiter='\n').writerow\<close>\<close>

text \<open>
  A field is quoted when it contains the delimiter, the quote character or a character
  of the line terminator; inside the quotes a quote character is doubled. The fields are
  joined by the delimiter; a record that would be empty although it has a field is
  written as two quote characters; the line terminator follows.
\<close>

definition needs_quote :: "string \<Rightarrow> bool" where
  "needs_quote fld \<longleftrightarrow> list_ex (\<lambda>c. c = delimiter \<or> c = quotechar \<or> c = CR \<or> c = LF) fld"

definition join_append :: "string \<Rightarrow> string" where
  "join_append fld =
     (if needs_quote fld
      then [quotechar] @ concat (map (\<lambda>c. if c = quotechar then [quotechar, c] else [c]) fld)
           @ [quotechar]
      else fld)"

fun join_fields :: "string list \<Rightarrow> string" where
  "join_fields [] = []"
| "join_fields [fld] = fld"
| "join_fields (fld # nxt # rest) = fld @ delimiter # join_fields (nxt # rest)"

definition csv_writerow :: "string list \<Rightarrow> string" where
  "csv_writerow row =
     (let rec = join_fields (map join_append row)
      in (if row \<noteq> [] \<and> rec = [] then [quotechar, quotechar] else rec) @ [CR, LF])"

subsection \<open>Reading a text file line by line\<close>

text \<open>
  A file opened for reading in text mode translates CR LF and a lone CR into a line
  feed; iterating over it yields the lines, each with its line feed (the last line may
  have none).
\<close>

fun universal_newlines :: "string \<Rightarrow> string" where
  "universal_newlines [] = []"
| "universal_newlines [c] = (if c = CR then [LF] else [c])"
| "universal_newlines (c # d # rest) =
     (if c = CR \<and> d = LF then LF # universal_newlines rest
      else if c = CR then LF # universal_newlines (d # rest)
      else c # universal_newlines (d # rest))"

fun split_lines :: "string \<Rightarrow> string \<Rightarrow> string list" where
  "split_lines cur [] = (if cur = [] then [] else [cur])"
| "split_lines cur (c # rest) =
     (if c = LF then (cur @ [c]) # split_lines [] rest else split_lines (cur @ [c]) rest)"

definition file_lines :: "string \<Rightarrow> string list" where
  "file_lines text = split_lines [] (universal_newlines text)"

subsection \<open>\<^verbatim>\<open>csv.reader(f, delimiter='\n')\<close>\<close>

text \<open>
  The reader is CPython's state machine (\<^verbatim>\<open>parse_process_char\<close> in \<^verbatim>\<open>_csv.c\<close>),
  restricted to the states this dialect can reach. It is fed every character of a line
  and then an end-of-line mark (\<open>None\<close>); a record is complete when the machine is
  back in \<open>START_RECORD\<close> after a line. In every state outside quotes a line feed is
  recognised as the end of the line before it is considered as the delimiter; directly
  after a closing quote it is taken as the delimiter. A field may hold at most
  \<open>field_limit\<close> characters (\<^verbatim>\<open>csv.field_size_limit()\<close>); the machine raises
  \<^verbatim>\<open>csv.Error\<close> beyond that.
\<close>

datatype parse_state =
  START_RECORD | START_FIELD | IN_FIELD | IN_QUOTED_FIELD | QUOTE_IN_QUOTED_FIELD | EAT_CRNL

record reader =
  p_state :: parse_state
  p_fields :: "string list"
  p_field :: string

definition field_limit :: nat where
  "field_limit = 131072"

definition parse_reset :: reader where
  "parse_reset = \<lparr>p_state = START_RECORD, p_fields = [], p_field = []\<rparr>"

definition parse_save_field :: "reader \<Rightarrow> reader" where
  "parse_save_field r = r\<lparr>p_fields := p_fields r @ [p_field r], p_field := []\<rparr>"

definition parse_add_char :: "reader \<Rightarrow> char \<Rightarrow> py_error + reader" where
  "parse_add_char r c =
     (if field_limit \<le> length (p_field r) then Inl CsvError
      else Inr (r\<lparr>p_field := p_field r @ [c]\<rparr>))"

definition add_char_then :: "parse_state \<Rightarrow> reader \<Rightarrow> char \<Rightarrow> py_error + reader" where
  "add_char_then st r c =
     (case parse_add_char r c of Inl e \<Rightarrow> Inl e | Inr r' \<Rightarrow> Inr (r'\<lparr>p_state := st\<rparr>))"

definition start_field :: "reader \<Rightarrow> char option \<Rightarrow> py_error + reader" where
  "start_field r c =
     (case c of
        None \<Rightarrow> Inr ((parse_save_field r)\<lparr>p_state := START_RECORD\<rparr>)
      | Some ch \<Rightarrow>
          if ch = LF \<or> ch = CR then Inr ((parse_save_field r)\<lparr>p_state := EAT_CRNL\<rparr>)
          else if ch = quotechar then Inr (r\<lparr>p_state := IN_QUOTED_FIELD\<rparr>)
          else if ch = delimiter then Inr (parse_save_field r)
          else add_char_then IN_FIELD r ch)"

definition parse_process_char :: "reader \<Rightarrow> char option \<Rightarrow> py_error + reader" where
  "parse_process_char r c =
     (case p_state r of
        START_RECORD \<Rightarrow>
          (case c of
             None \<Rightarrow> Inr r
           | Some ch \<Rightarrow>
               if ch = LF \<or> ch = CR then Inr (r\<lparr>p_state := EAT_CRNL\<rparr>)
               else start_field (r\<lparr>p_state := START_FIELD\<rparr>) c)
      | START_FIELD \<Rightarrow> start_field r c
      | IN_FIELD \<Rightarrow>
          (case c of
             None \<Rightarrow> Inr ((parse_save_field r)\<lparr>p_state := START_RECORD\<rparr>)
           | Some ch \<Rightarrow>
               if ch = LF \<or> ch = CR then Inr ((parse_save_field r)\<lparr>p_state := EAT_CRNL\<rparr>)
               else if ch = delimiter then Inr ((parse_save_field r)\<lparr>p_state := START_FIELD\<rparr>)
               else add_char_then IN_FIELD r ch)
      | IN_QUOTED_FIELD \<Rightarrow>
          (case c of
             None \<Rightarrow> Inr r
           | Some ch \<Rightarrow>
               if ch = quotechar then Inr (r\<lparr>p_state := QUOTE_IN_QUOTED_FIELD\<rparr>)
               else add_char_then IN_QUOTED_FIELD r ch)
      | QUOTE_IN_QUOTED_FIELD \<Rightarrow>
          (case c of
             None \<Rightarrow> Inr ((parse_save_field r)\<lparr>p_state := START_RECORD\<rparr>)
           | Some ch \<Rightarrow>
               if ch = quotechar then add_char_then IN_QUOTED_FIELD r ch
               else if ch = delimiter then Inr ((parse_save_field r)\<lparr>p_state := START_FIELD\<rparr>)
               else if ch = LF \<or> ch = CR then Inr ((parse_save_field r)\<lparr>p_state := EAT_CRNL\<rparr>)
               else add_char_then IN_FIELD r ch)
      | EAT_CRNL \<Rightarrow>
          (case c of
             None \<Rightarrow> Inr (r\<lparr>p_state := START_RECORD\<rparr>)
           | Some ch \<Rightarrow> if ch = LF \<or> ch = CR then Inr r else Inl CsvError))"

text \<open>One line: its characters in turn, then the end-of-line mark.\<close>

fun process_line :: "reader \<Rightarrow> string \<Rightarrow> py_error + reader" where
  "process_line r [] = parse_process_char r None"
| "process_line r (c # rest) =
     (case parse_process_char r (Some c) of Inl e \<Rightarrow> Inl e | Inr r' \<Rightarrow> process_line r' rest)"

text \<open>
  The records of a sequence of lines. When the lines run out inside a record (an
  unclosed quote), the field read so far completes the last record.
\<close>

fun reader_rows :: "reader \<Rightarrow> string list \<Rightarrow> py_error + string list list" where
  "reader_rows r [] =
     (if p_field r \<noteq> [] \<or> p_state r = IN_QUOTED_FIELD
      then Inr [p_fields (parse_save_field r)] else Inr [])"
| "reader_rows r (line # rest) =
     (case process_line r line of
        Inl e \<Rightarrow> Inl e
      | Inr r' \<Rightarrow>
          if p_state r' \<noteq> START_RECORD then reader_rows r' rest
          else (case reader_rows parse_reset rest of
                  Inl e \<Rightarrow> Inl e
                | Inr rows \<Rightarrow> Inr (p_fields r' # rows)))"

definition csv_reader :: "string \<Rightarrow> py_error + string list list" where
  "csv_reader text = reader_rows parse_reset (file_lines text)"

subsection \<open>The arrays of the read cell\<close>

text \<open>
  The arrays of strings that \<^verbatim>\<open>np.array(...).squeeze()\<close> can produce here have at most
  two axes. \<^verbatim>\<open>np.array\<close> of an empty list has shape \<open>(0,)\<close>, of a list of equally long
  rows shape \<open>(N, k)\<close>, and raises \<^verbatim>\<open>ValueError\<close> for rows of different lengths
  (NumPy 1.24 and later); \<^verbatim>\<open>squeeze\<close> removes every axis of length one; \<^verbatim>\<open>len\<close> is
  the length of the first axis and raises \<^verbatim>\<open>TypeError\<close> on an array without axes.
\<close>

datatype 'a ndarray = Scalar 'a | Vec "'a list" | Mat "'a list list"

definition np_array :: "'a list list \<Rightarrow> py_error + 'a ndarray" where
  "np_array rows =
     (if rows = [] then Inr (Vec [])
      else if list_all (\<lambda>r. length r = length (hd rows)) rows then Inr (Mat rows)
      else Inl ValueError)"

fun squeeze :: "'a ndarray \<Rightarrow> 'a ndarray" where
  "squeeze (Scalar a) = Scalar a"
| "squeeze (Vec xs) = (case xs of [x] \<Rightarrow> Scalar x | _ \<Rightarrow> Vec xs)"
| "squeeze (Mat rows) =
     (case rows of
        [r] \<Rightarrow> (case r of [x] \<Rightarrow> Scalar x | _ \<Rightarrow> Vec r)
      | _ \<Rightarrow> if rows \<noteq> [] \<and> list_all (\<lambda>r. length r = 1) rows then Vec (map hd rows) else Mat rows)"

fun np_len :: "'a ndarray \<Rightarrow> py_error + nat" where
  "np_len (Scalar a) = Inl TypeError"
| "np_len (Vec xs) = Inr (length xs)"
| "np_len (Mat rows) = Inr (length rows)"

text \<open>
  \<^verbatim>\<open>flat.reshape((n, -1))\<close> of a one-dimensional array: the missing dimension is the
  size divided by \<open>n\<close>; it raises \<^verbatim>\<open>ValueError\<close> when \<open>n\<close> is zero or does not divide
  the size.
\<close>

definition np_reshape_rows :: "nat \<Rightarrow> 'a list \<Rightarrow> py_error + 'a list list" where
  "np_reshape_rows n flat =
     (if n = 0 \<or> length flat mod n \<noteq> 0 then Inl ValueError
      else Inr (map (\<lambda>i. take (length flat div n) (drop (i * (length flat div n)) flat)) [0..<n]))"

subsection \<open>The two cells\<close>

text \<open>
  The cell that writes the cache. \<^verbatim>\<open>codes\<close> is the variable left by the batching
  cell: \<^verbatim>\<open>None\<close>, on which \<^verbatim>\<open>.tofile\<close> raises \<^verbatim>\<open>AttributeError\<close>, or a
  two-dimensional array given by its rows.
\<close>

definition write_cache :: "float32 list list option \<Rightarrow> string list \<Rightarrow> py_error + cache_files" where
  "write_cache cs ls =
     (case cs of
        None \<Rightarrow> Inl AttributeError
      | Some rows \<Rightarrow> Inr \<lparr>codes_file = concat rows, labels_file = csv_writerow ls\<rparr>)"

text \<open>
  The cell that reads the cache back: first \<^verbatim>\<open>labels\<close> (\<open>read_labels\<close>), then
  \<^verbatim>\<open>codes\<close>, reshaped to \<^verbatim>\<open>len(labels)\<close> rows. It returns the new \<^verbatim>\<open>codes\<close> and
  \<^verbatim>\<open>labels\<close>.
\<close>

definition read_labels :: "string \<Rightarrow> py_error + string ndarray" where
  "read_labels text =
     (case csv_reader text of
        Inl e \<Rightarrow> Inl e
      | Inr rows \<Rightarrow>
          (case np_array (filter (\<lambda>each. length each > 0) rows) of
             Inl e \<Rightarrow> Inl e
           | Inr a \<Rightarrow> Inr (squeeze a)))"

definition read_cache :: "cache_files \<Rightarrow> py_error + (float32 list list \<times> string ndarray)" where
  "read_cache fs =
     (case read_labels (labels_file fs) of
        Inl e \<Rightarrow> Inl e
      | Inr ls \<Rightarrow>
          let flat = codes_file fs
          in case np_len ls of
               Inl e \<Rightarrow> Inl e
             | Inr n \<Rightarrow>
                 (case np_reshape_rows n flat of
                    Inl e \<Rightarrow> Inl e
                  | Inr cs \<Rightarrow> Inr (cs, ls)))"

text \<open>Writing the cache and reading it back, one cell after the other.\<close>

definition write_then_read ::
  "float32 list list option \<Rightarrow> string list \<Rightarrow> py_error + (float32 list list \<times> string ndarray)" where
  "write_then_read cs ls =
     (case write_cache cs ls of Inl e \<Rightarrow> Inl e | Inr fs \<Rightarrow> read_cache fs)"

text \<open>
  The labels that are written as they are, one per line: not empty, free of line feed,
  carriage return and quote character, and within the reader's field limit.
\<close>

definition plain_label :: "string \<Rightarrow> bool" where
  "plain_label l \<longleftrightarrow>
     l \<noteq> [] \<and> length l \<le> field_limit
     \<and> list_all (\<lambda>c. c \<noteq> LF \<and> c \<noteq> CR \<and> c \<noteq> quotechar) l"

section \<open>Data preparation: label encoding and the three-way split\<close>

text \<open>
  \<^verbatim>\<open>
  lb = LabelBinarizer()
  lb.fit(labels)
  labels_vecs = lb.transform(labels)
  \<close>
  \<^verbatim>\<open>LabelBinarizer\<close> is scikit-learn's. \<^verbatim>\<open>fit\<close> stores the sorted distinct labels in
  \<^verbatim>\<open>classes_\<close> and raises \<^verbatim>\<open>ValueError\<close> on an empty sequence. \<^verbatim>\<open>transform\<close> of the
  fitted sequence returns one row per label: with three or more classes the indicator
  row over \<^verbatim>\<open>classes_\<close>; with two classes a single column that is 1 for the second
  class (the library's documented treatment of binary targets); with one class a single
  column of zeros. Strings are ordered as Python orders them, character by character.
\<close>

definition lb_fit :: "string list \<Rightarrow> py_error + string list" where
  "lb_fit y = (if y = [] then Inl ValueError else Inr (sort (remdups y)))"

definition lb_transform :: "string list \<Rightarrow> string list \<Rightarrow> int list list" where
  "lb_transform classes y =
     (if length classes = 1 then map (\<lambda>l. [0]) y
      else if length classes = 2 then map (\<lambda>l. [if l = classes ! 1 then 1 else 0]) y
      else map (\<lambda>l. map (\<lambda>c. if c = l then 1 else 0) classes) y)"

definition labels_vecs :: "string list \<Rightarrow> py_error + int list list" where
  "labels_vecs ls = (case lb_fit ls of Inl e \<Rightarrow> Inl e | Inr classes \<Rightarrow> Inr (lb_transform classes ls))"

text \<open>The one-hot vector of width \<open>k\<close> with its 1 at position \<open>j\<close>.\<close>

definition one_hot :: "nat \<Rightarrow> nat \<Rightarrow> int list" where
  "one_hot k j = (replicate k 0)[j := 1]"

text \<open>
  \<^verbatim>\<open>
  ss = StratifiedShuffleSplit(n_splits=1, test_size=0.2)
  train_idx, val_idx = next(ss.split(codes, labels_vecs))
  half_val_len = int(len(val_idx)/2)
  val_idx, test_idx = val_idx[:half_val_len], val_idx[half_val_len:]
  \<close>
  The first two lines are scikit-learn's shuffled, stratified split: its result is an
  input of the model. \<open>shuffle_split n\<close> is the part of its contract used here: the
  two index arrays together hold every index below \<open>n\<close> exactly once. The last two
  lines are the notebook's own; \<^verbatim>\<open>int(len(val_idx)/2)\<close> is the length halved and
  rounded down.
\<close>

definition shuffle_split :: "nat \<Rightarrow> nat list \<times> nat list \<Rightarrow> bool" where
  "shuffle_split n split \<longleftrightarrow>
     distinct (fst split @ snd split) \<and> set (fst split @ snd split) = {0..<n}"

definition halve_holdout :: "nat list \<Rightarrow> nat list \<times> nat list" where
  "halve_holdout val_idx =
     (let half_val_len = length val_idx div 2
      in (take half_val_len val_idx, drop half_val_len val_idx))"

definition split_indices :: "nat list \<times> nat list \<Rightarrow> nat list \<times> nat list \<times> nat list" where
  "split_indices split =
     (let train_idx = fst split;
          (val_idx, test_idx) = halve_holdout (snd split)
      in (train_idx, val_idx, test_idx))"

section \<open>The training loop\<close>

text \<open>
  \<^verbatim>\<open>
  epochs = 10
  iteration = 0
  with tf.Session() as sess:
      sess.run(tf.global_variables_initializer())
      for e in range(epochs):
          for x, y in get_batches(train_x, train_y):
              feed = {inputs_: x, labels_: y}
              loss, _ = sess.run([cost, optimizer], feed_dict=feed)
              print("Epoch: {}/{}".format(e+1, epochs), "Iteration: {}".format(iteration),
                    "Training loss: {:.5f}".format(loss))
              iteration += 1
              if iteration % 5 == 0:
                  feed = {inputs_: val_x, labels_: val_y}
                  val_acc = sess.run(accuracy, feed_dict=feed)
                  print("Epoch: {}/{}".format(e, epochs), "Iteration: {}".format(iteration),
                        "Validation Acc: {:.4f}".format(val_acc))
  \<close>
  The classifier graph is external: its three operations are the fields of \<open>graph\<close>,
  functions of the session's variables (weights, biases and the optimizer's slots, of
  type \<open>'p\<close>) and of the fed batch. \<open>cost_op\<close> and \<open>accuracy_op\<close> compute a number of
  type \<open>'v\<close>; \<open>train_op\<close> is \<^verbatim>\<open>AdamOptimizer().minimize(cost)\<close> and returns the updated
  variables. \<^verbatim>\<open>sess.run(fetches, feed_dict)\<close> evaluates the fetched operations only:
  the variables change exactly when the optimizer is among them. \<^verbatim>\<open>accuracy\<close> is
  built from \<^verbatim>\<open>logits\<close> and \<^verbatim>\<open>labels_\<close> and does not depend on the optimizer.
\<close>

datatype fetch = Cost | Optimizer | Accuracy

datatype 'v fetched = Value 'v | NoValue

record ('p, 'x, 'y, 'v) graph =
  cost_op :: "'p \<Rightarrow> 'x list \<times> 'y list \<Rightarrow> 'v"
  train_op :: "'p \<Rightarrow> 'x list \<times> 'y list \<Rightarrow> 'p"
  accuracy_op :: "'p \<Rightarrow> 'x list \<times> 'y list \<Rightarrow> 'v"

definition sess_run ::
  "('p, 'x, 'y, 'v) graph \<Rightarrow> fetch list \<Rightarrow> 'x list \<times> 'y list \<Rightarrow> 'p \<Rightarrow> 'v fetched list \<times> 'p" where
  "sess_run g fetches feed vars =
     (map (\<lambda>f. case f of Cost \<Rightarrow> Value (cost_op g vars feed)
                        | Optimizer \<Rightarrow> NoValue
                        | Accuracy \<Rightarrow> Value (accuracy_op g vars feed)) fetches,
      if Optimizer \<in> set fetches then train_op g vars feed else vars)"

text \<open>
  The state of the cell: the session's variables, the counter \<^verbatim>\<open>iteration\<close> and the
  lines printed so far (epoch shown, iteration shown, value).
\<close>

datatype 'v printed_line = TrainingLoss int int "'v fetched" | ValidationAcc int int "'v fetched"

record ('p, 'v) train_state =
  variables :: 'p
  iteration :: int
  printed :: "'v printed_line list"

text \<open>The body of \<^verbatim>\<open>if iteration % 5 == 0\<close>.\<close>

definition validation_check ::
  "('p, 'x, 'y, 'v) graph \<Rightarrow> 'x list \<times> 'y list \<Rightarrow> int \<Rightarrow> ('p, 'v) train_state \<Rightarrow> ('p, 'v) train_state" where
  "validation_check g val e s =
     (let (out, vars') = sess_run g [Accuracy] val (variables s)
      in s\<lparr>variables := vars',
            printed := printed s @ [ValidationAcc e (iteration s) (out ! 0)]\<rparr>)"

text \<open>The body of the loop over the batches of one epoch.\<close>

definition train_step ::
  "('p, 'x, 'y, 'v) graph \<Rightarrow> 'x list \<times> 'y list \<Rightarrow> int \<Rightarrow> ('p, 'v) train_state \<Rightarrow> 'x list \<times> 'y list
     \<Rightarrow> ('p, 'v) train_state" where
  "train_step g val e s feed =
     (let (out, vars') = sess_run g [Cost, Optimizer] feed (variables s);
          s1 = s\<lparr>variables := vars',
                 printed := printed s @ [TrainingLoss (e + 1) (iteration s) (out ! 0)],
                 iteration := iteration s + 1\<rparr>
      in if iteration s1 mod 5 = 0 then validation_check g val e s1 else s1)"

definition train_epoch ::
  "('p, 'x, 'y, 'v) graph \<Rightarrow> 'x list \<times> 'y list \<Rightarrow> 'x list \<times> 'y list \<Rightarrow> int \<Rightarrow> ('p, 'v) train_state
     \<Rightarrow> py_error + ('p, 'v) train_state" where
  "train_epoch g train val e s =
     (case get_batches (fst train) (snd train) 10 of
        Inl err \<Rightarrow> Inl err
      | Inr bs \<Rightarrow> Inr (foldl (train_step g val e) s bs))"

fun train_epochs ::
  "('p, 'x, 'y, 'v) graph \<Rightarrow> 'x list \<times> 'y list \<Rightarrow> 'x list \<times> 'y list \<Rightarrow> int list \<Rightarrow> ('p, 'v) train_state
     \<Rightarrow> py_error + ('p, 'v) train_state" where
  "train_epochs g train val [] s = Inr s"
| "train_epochs g train val (e # es) s =
     (case train_epoch g train val e s of
        Inl err \<Rightarrow> Inl err
      | Inr s' \<Rightarrow> train_epochs g train val es s')"

text \<open>
  The whole cell, from the freshly initialised variables \<open>init\<close>; \<open>epochs\<close> is the
  cell's constant (10 in the notebook).
\<close>

definition train ::
  "('p, 'x, 'y, 'v) graph \<Rightarrow> 'p \<Rightarrow> 'x list \<times> 'y list \<Rightarrow> 'x list \<times> 'y list \<Rightarrow> int
     \<Rightarrow> py_error + ('p, 'v) train_state" where
  "train g init train_set val epochs =
     (case py_range 0 epochs 1 of
        Inl err \<Rightarrow> Inl err
      | Inr es \<Rightarrow> train_epochs g train_set val es \<lparr>variables = init, iteration = 0, printed = []\<rparr>)"

text \<open>The number of validation lines among printed lines.\<close>

fun is_validation :: "'v printed_line \<Rightarrow> bool" where
  "is_validation (ValidationAcc e i v) = True"
| "is_validation (TrainingLoss e i v) = False"

text \<open>
  Reference notions for the loop. A step is a pair of the epoch index and the fed
  minibatch. \<open>epoch_steps\<close> lists the steps of a run: epoch after epoch, the batches
  of the epoch in order. \<open>step_lines\<close> are the lines one gradient step is expected to
  print, given the variables and the counter before the step: the training loss, and,
  when the incremented counter is a multiple of 5, the accuracy of the updated
  variables on the validation partition. \<open>expected_log\<close> is the expected output of
  a whole run, step number \<open>k\<close> starting from the variables that the first \<open>k\<close>
  optimizer updates have produced.
\<close>

definition epoch_steps :: "int list \<Rightarrow> 'b list \<Rightarrow> (int \<times> 'b) list" where
  "epoch_steps es bs = concat (map (\<lambda>e. map (Pair e) bs) es)"

definition step_lines ::
  "('p, 'x, 'y, 'v) graph \<Rightarrow> 'x list \<times> 'y list \<Rightarrow> 'p \<Rightarrow> int \<Rightarrow> int \<Rightarrow> 'x list \<times> 'y list
     \<Rightarrow> 'v printed_line list" where
  "step_lines g val vars i e feed =
     TrainingLoss (e + 1) i (Value (cost_op g vars feed))
     # (if (i + 1) mod 5 = 0
        then [ValidationAcc e (i + 1) (Value (accuracy_op g (train_op g vars feed) val))]
        else [])"

definition expected_log ::
  "('p, 'x, 'y, 'v) graph \<Rightarrow> 'x list \<times> 'y list \<Rightarrow> 'p \<Rightarrow> (int \<times> 'x list \<times> 'y list) list
     \<Rightarrow> 'v printed_line list" where
  "expected_log g val init steps =
     concat (map (\<lambda>k. step_lines g val (foldl (train_op g) init (take k (map snd steps))) (int k)
                          (fst (steps ! k)) (snd (steps ! k)))
                 [0..<length steps])"

text \<open>The same lines, computed step by step from the variables and the counter.\<close>

fun run_lines_rec ::
  "('p, 'x, 'y, 'v) graph \<Rightarrow> 'x list \<times> 'y list \<Rightarrow> 'p \<Rightarrow> int \<Rightarrow> (int \<times> 'x list \<times> 'y list) list
     \<Rightarrow> 'v printed_line list" where
  "run_lines_rec g val vars i [] = []"
| "run_lines_rec g val vars i (step # rest) =
     step_lines g val vars i (fst step) (snd step)
     @ run_lines_rec g val (train_op g vars (snd step)) (i + 1) rest"

section \<open>Properties of \<^verbatim>\<open>get_batches\<close>\<close>

lemma slice_bound_nat: "slice_bound xs (int a) = min (length xs) a"
  by (simp add: slice_bound_def min_def)

lemma py_slice_nat: "a \<le> c \<Longrightarrow> py_slice xs (int a) (int c) = take (c - a) (drop a xs)"
  by (auto simp: py_slice_def slice_bound_nat min_def)

lemma py_slice_from_nat: "py_slice_from xs (int a) = drop a xs"
  by (simp add: py_slice_from_def slice_bound_nat min_def)

lemma py_range_pos:
  assumes "0 < b"
  shows "py_range 0 (int n * int b) (int b) = Inr (map (\<lambda>k. int (k * b)) [0..<n])"
proof -
  have "(int n * int b + int b - 1) div int b = int n"
  proof -
    have "int n * int b + int b - 1 = int (b - 1 + n * b)"
      using assms by (simp add: of_nat_diff)
    moreover have "(b - 1 + n * b) div b = n"
    proof -
      have "(b - 1 + n * b) div b = n + (b - 1) div b"
        using assms by (intro div_mult_self1) simp
      then show ?thesis using assms by simp
    qed
    ultimately show ?thesis
      by (simp only: zdiv_int [symmetric])
  qed
  then show ?thesis using assms by (simp add: py_range_def)
qed

lemma get_batches_nat:
  assumes "0 < n" "n \<le> length x"
  shows "get_batches x y (int n) =
    Inr (map (\<lambda>k. if k \<noteq> n - 1
                    then (take (length x div n) (drop (k * (length x div n)) x),
                          take (length x div n) (drop (k * (length x div n)) y))
                    else (drop (k * (length x div n)) x, drop (k * (length x div n)) y))
             [0..<n])"
proof -
  define b where "b = length x div n"
  have b: "0 < b" using assms by (simp add: b_def div_greater_zero_iff)
  have bs: "int (length x) div int n = int b" by (simp add: b_def zdiv_int)
  have last: "(int n - 1) * int b = int ((n - 1) * b)" using assms by (simp add: of_nat_diff)
  have eq: "\<And>k. (int (k * b) \<noteq> int ((n - 1) * b)) = (k \<noteq> n - 1)"
    using b by (simp del: of_nat_mult)
  have sl: "\<And>k zs::'c list. py_slice zs (int (k * b)) (int (k * b) + int b) = take b (drop (k * b) zs)"
  proof -
    fix k and zs :: "'c list"
    have "py_slice zs (int (k * b)) (int (k * b + b)) = take (k * b + b - k * b) (drop (k * b) zs)"
      by (rule py_slice_nat) simp
    then show "py_slice zs (int (k * b)) (int (k * b) + int b) = take b (drop (k * b) zs)" by simp
  qed
  show ?thesis
    unfolding get_batches_def Let_def bs last
    using assms(1) b
    by (simp add: py_range_pos o_def eq sl py_slice_from_nat b_def [symmetric] del: of_nat_mult)
qed

lemma concat_take_drop:
  "concat (map (\<lambda>k. take b (drop (k * b) xs)) [0..<m]) = take (m * b) xs"
proof (induction m)
  case 0
  then show ?case by simp
next
  case (Suc m)
  have "take (m * b) xs @ take b (drop (m * b) xs) = take (m * b + b) xs"
    by (simp add: take_add)
  with Suc show ?case by (simp add: add.commute)
qed


lemma concat_batches:
  assumes "0 < n"
  shows "concat (map (\<lambda>k. if k \<noteq> n - 1 then take b (drop (k * b) xs) else drop (k * b) xs) [0..<n]) = xs"
proof -
  from assms obtain m where n: "n = Suc m" by (cases n) auto
  have a: "map (\<lambda>k. if k \<noteq> m then take b (drop (k * b) xs) else drop (k * b) xs) [0..<m]
      = map (\<lambda>k. take b (drop (k * b) xs)) [0..<m]"
    by (rule map_cong) auto
  show ?thesis
    by (simp add: n a concat_take_drop)
qed

text \<open>
  Claim C5 (training-loop coverage). For every number of batches \<open>n_batches \<ge> 1\<close> and
  every training partition \<open>x\<close>, \<open>y\<close> with at least \<open>n_batches\<close> samples,
  \<^verbatim>\<open>get_batches\<close> raises nothing and yields exactly \<open>n_batches\<close> batches whose
  concatenation, in order, is the training set: every sample is in exactly one
  minibatch. Every batch but the last has \<^verbatim>\<open>len(x)//n_batches\<close> samples and the last
  one absorbs the remainder.
\<close>

theorem get_batches_partition:
  assumes "1 \<le> n_batches" and "n_batches \<le> int (length x)" and "length y = length x"
  shows "\<exists>bs. get_batches x y n_batches = Inr bs
           \<and> int (length bs) = n_batches
           \<and> concat (map fst bs) = x
           \<and> concat (map snd bs) = y
           \<and> (\<forall>i<length bs. length (snd (bs ! i)) = length (fst (bs ! i))
                 \<and> int (length (fst (bs ! i))) =
                     (if Suc i = length bs
                      then int (length x) div n_batches + int (length x) mod n_batches
                      else int (length x) div n_batches))"
proof -
  define n where "n = nat n_batches"
  define b where "b = length x div n"
  have n: "0 < n" "n \<le> length x" "n_batches = int n"
    using assms by (simp_all add: n_def)
  let ?F = "\<lambda>k. if k \<noteq> n - 1
                    then (take b (drop (k * b) x), take b (drop (k * b) y))
                    else (drop (k * b) x, drop (k * b) y)"
  have gb: "get_batches x y n_batches = Inr (map ?F [0..<n])"
    unfolding n(3) b_def by (rule get_batches_nat [OF n(1) n(2)])
  have fst_eq: "map fst (map ?F [0..<n])
      = map (\<lambda>k. if k \<noteq> n - 1 then take b (drop (k * b) x) else drop (k * b) x) [0..<n]"
    by simp
  have snd_eq: "map snd (map ?F [0..<n])
      = map (\<lambda>k. if k \<noteq> n - 1 then take b (drop (k * b) y) else drop (k * b) y) [0..<n]"
    by simp
  have cx: "concat (map fst (map ?F [0..<n])) = x"
    unfolding fst_eq by (rule concat_batches [OF n(1)])
  have cy: "concat (map snd (map ?F [0..<n])) = y"
    unfolding snd_eq by (rule concat_batches [OF n(1)])
  have divmod: "int (length x) div n_batches = int b" "int (length x) mod n_batches = int (length x mod n)"
    by (simp_all add: n(3) b_def zdiv_int zmod_int)
  have nb: "n * b \<le> length x" by (simp add: b_def)
  have sizes: "\<forall>i<n. length (snd (?F i)) = length (fst (?F i))
                 \<and> length (fst (?F i)) = (if Suc i = n then b + length x mod n else b)"
  proof (intro allI impI)
    fix i assume i: "i < n"
    show "length (snd (?F i)) = length (fst (?F i))
                 \<and> length (fst (?F i)) = (if Suc i = n then b + length x mod n else b)"
    proof (cases "i = n - 1")
      case True
      have "length x = (n - 1) * b + b + length x mod n"
        using n(1) div_mult_mod_eq [of "length x" n]
        by (cases n) (simp_all add: b_def algebra_simps)
      then have "length x - (n - 1) * b = b + length x mod n" by linarith
      then show ?thesis using True n(1) assms(3) by auto
    next
      case False
      then have "Suc i < n" using i by simp
      then have "Suc i * b \<le> n * b" by (intro mult_le_mono1) simp
      then have "i * b + b \<le> length x" using nb by simp
      then show ?thesis using False i assms(3) by auto
    qed
  qed
  have sizes': "\<forall>i<length (map ?F [0..<n]).
       length (snd (map ?F [0..<n] ! i)) = length (fst (map ?F [0..<n] ! i))
       \<and> int (length (fst (map ?F [0..<n] ! i))) =
            (if Suc i = length (map ?F [0..<n]) then int b + int (length x mod n) else int b)"
  proof (intro allI impI)
    fix i assume "i < length (map ?F [0..<n])"
    then have i: "i < n" by simp
    then have nth: "map ?F [0..<n] ! i = ?F i" by simp
    have len: "length (map ?F [0..<n]) = n" by simp
    from sizes i have "length (snd (?F i)) = length (fst (?F i))"
      and "length (fst (?F i)) = (if Suc i = n then b + length x mod n else b)" by blast+
    then show "length (snd (map ?F [0..<n] ! i)) = length (fst (map ?F [0..<n] ! i))
       \<and> int (length (fst (map ?F [0..<n] ! i))) =
            (if Suc i = length (map ?F [0..<n]) then int b + int (length x mod n) else int b)"
      unfolding nth len by simp
  qed
  have len: "int (length (map ?F [0..<n])) = n_batches" by (simp add: n(3))
  show ?thesis
    unfolding divmod
    using gb len cx cy sizes' by blast
qed

theorem get_batches_partition_witness:
  "1 \<le> (3::int) \<and> 3 \<le> int (length [1, 2, 3, 4, 5, 6, 7 :: nat])
   \<and> get_batches [1, 2, 3, 4, 5, 6, 7 :: nat] ''abcdefg'' 3
       = Inr [([1, 2], ''ab''), ([3, 4], ''cd''), ([5, 6, 7], ''efg'')]"
  using get_batches_partition [of 3 "[1, 2, 3, 4, 5, 6, 7 :: nat]" "''abcdefg''"]
  by (simp add: get_batches_def py_range_def py_slice_def py_slice_from_def slice_bound_def upt_rec)

text \<open>
  Claim C10 (fewer samples than batches). For equal-length \<open>x\<close>, \<open>y\<close> with
  \<open>1 \<le> len(x) < n_batches\<close> the batch size \<^verbatim>\<open>len(x)//n_batches\<close> is zero and the
  generator raises \<^verbatim>\<open>ValueError\<close> (zero step passed to \<^verbatim>\<open>range\<close>) before it
  yields any batch.
\<close>

theorem get_batches_too_few_samples:
  assumes "length y = length x" and "1 \<le> length x" and "int (length x) < n_batches"
  shows "int (length x) div n_batches = 0 \<and> get_batches x y n_batches = Inl ValueError"
  using assms by (simp add: get_batches_def py_range_def div_pos_pos_trivial)

theorem get_batches_too_few_samples_witness:
  "length ''abc'' = length [1, 2, 3 :: nat] \<and> 1 \<le> length [1, 2, 3 :: nat]
   \<and> int (length [1, 2, 3 :: nat]) < 10
   \<and> get_batches [1, 2, 3 :: nat] ''abc'' 10 = Inl ValueError"
  using get_batches_too_few_samples [of "''abc''" "[1, 2, 3 :: nat]" 10]
  by simp

section \<open>Properties of the batching loop\<close>

lemma chunks_Nil [simp]: "chunks n [] = []"
  by (simp add: chunks.simps)

lemma chunks_fits: "xs \<noteq> [] \<Longrightarrow> length xs \<le> n \<Longrightarrow> chunks n xs = [xs]"
  by (subst chunks.simps) (cases xs; auto)

lemma chunks_full: "length xs = n \<Longrightarrow> xs \<noteq> [] \<Longrightarrow> chunks n (xs @ ys) = xs # chunks n ys"
  by (subst chunks.simps) auto

lemma concat_chunks: "0 < n \<Longrightarrow> concat (chunks n xs) = xs"
proof (induction n xs rule: chunks.induct)
  case (1 n xs)
  show ?case
  proof (cases "xs = []")
    case True
    then show ?thesis by simp
  next
    case False
    with 1 show ?thesis by (subst chunks.simps) simp
  qed
qed

lemma chunks_eq_Nil: "0 < n \<Longrightarrow> chunks n xs = [] \<longleftrightarrow> xs = []"
  by (subst chunks.simps) auto

lemma chunks_sizes: "0 < n \<Longrightarrow> b \<in> set (chunks n xs) \<Longrightarrow> 0 < length b \<and> length b \<le> n"
proof (induction n xs arbitrary: b rule: chunks.induct)
  case (1 n xs)
  show ?case
  proof (cases "xs = []")
    case True
    with "1.prems" show ?thesis by simp
  next
    case False
    from "1.prems"(2) have "b = take n xs \<or> b \<in> set (chunks n (drop n xs))"
      using False "1.prems"(1) by (subst (asm) chunks.simps) auto
    then show ?thesis
    proof
      assume "b = take n xs"
      then show ?thesis using False "1.prems"(1) by (cases xs) auto
    next
      assume "b \<in> set (chunks n (drop n xs))"
      then show ?thesis using "1.IH" False "1.prems"(1) by auto
    qed
  qed
qed

lemma nth_chunks:
  "0 < n \<Longrightarrow> i < length (chunks n xs) \<Longrightarrow> chunks n xs ! i = take n (drop (i * n) xs)"
proof (induction n xs arbitrary: i rule: chunks.induct)
  case (1 n xs)
  show ?case
  proof (cases "xs = []")
    case True
    with "1.prems" show ?thesis by simp
  next
    case False
    have c: "chunks n xs = take n xs # chunks n (drop n xs)"
      using False "1.prems"(1) by (subst chunks.simps) simp
    show ?thesis
    proof (cases i)
      case 0
      then show ?thesis by (simp add: c)
    next
      case (Suc j)
      then have "j < length (chunks n (drop n xs))" using "1.prems"(2) c by simp
      then have "chunks n (drop n xs) ! j = take n (drop (j * n) (drop n xs))"
        using "1.IH" False "1.prems"(1) by simp
      then show ?thesis by (simp add: c Suc add.commute)
    qed
  qed
qed

lemma sum_length_chunks: "0 < n \<Longrightarrow> sum_list (map length (chunks n xs)) = length xs"
proof -
  assume "0 < n"
  then have "length (concat (chunks n xs)) = length xs" by (simp add: concat_chunks)
  then show ?thesis by (simp add: length_concat)
qed

lemma codes_after_Nil [simp]: "codes_after run c [] = c"
  by (simp add: codes_after_def)

lemma codes_after_append: "codes_after run c (as @ bs) = codes_after run (codes_after run c as) bs"
  by (simp add: codes_after_def)

lemma codes_after_single:
  "codes_after run c [b] = (case c of None \<Rightarrow> Some (run b) | Some rows \<Rightarrow> Some (rows @ run b))"
  by (simp add: codes_after_def)

lemma codes_after_Cons:
  "codes_after run c (b # bs) = codes_after run (codes_after run c [b]) bs"
  by (simp add: codes_after_def)

lemma codes_after_map:
  "codes_after (map f) c bs = (if bs = [] then c else Some (code_rows c @ map f (concat bs)))"
proof (induction bs arbitrary: c)
  case Nil
  then show ?case by simp
next
  case (Cons b bs)
  show ?case
    by (subst codes_after_Cons) (simp add: Cons.IH codes_after_single code_rows_def split: option.splits)
qed

lemma run_batch_eq:
  "run_batch run s = s\<lparr>codes := codes_after run (codes s) [batch s], batch := [],
                       submitted := submitted s @ [batch s]\<rparr>"
  by (simp add: run_batch_def Let_def codes_after_single)

lemma files_loop_chunks:
  assumes "0 < bs"
    and "all_load load_image class_path files"
    and "files \<noteq> [] \<longrightarrow> Suc (length (batch s)) \<le> bs \<and> ii mod bs = Suc (length (batch s)) mod bs"
    and "files = [] \<longrightarrow> batch s = []"
    and "ii + length files = Suc n"
  shows "files_loop run load_image (int bs) each class_path n ii files s =
      Inr (s\<lparr>codes := codes_after run (codes s)
                        (chunks bs (batch s @ class_images load_image class_path files)),
             labels := labels s @ replicate (length files) each,
             batch := [],
             submitted := submitted s
                          @ chunks bs (batch s @ class_images load_image class_path files)\<rparr>)"
  using assms(2-)
proof (induction files arbitrary: ii s)
  case Nil
  then show ?case by (simp add: class_images_def)
next
  case (Cons fname rest)
  from Cons.prems(1) obtain img where img: "load_image (os_path_join class_path fname) = Some img"
    and rest_load: "all_load load_image class_path rest"
    by (auto simp: all_load_def)
  define s1 where "s1 = s\<lparr>batch := batch s @ [img], labels := labels s @ [each]\<rparr>"
  have imgs: "class_images load_image class_path (fname # rest)
      = img # class_images load_image class_path rest"
    by (simp add: class_images_def img)
  from Cons.prems(2) have le: "Suc (length (batch s)) \<le> bs"
    and md: "ii mod bs = Suc (length (batch s)) mod bs" by simp_all
  have modz: "(int ii mod int bs = 0) = (Suc (length (batch s)) = bs)"
  proof -
    have "(int ii mod int bs = 0) = (ii mod bs = 0)"
      by (simp only: zmod_int [symmetric]) simp
    also have "\<dots> = (Suc (length (batch s)) mod bs = 0)" by (simp only: md)
    also have "\<dots> = (Suc (length (batch s)) = bs)"
      using le by (cases "Suc (length (batch s)) = bs") auto
    finally show ?thesis .
  qed
  have iin: "(ii = n) = (rest = [])" using Cons.prems(4) by auto
  have unf: "files_loop run load_image (int bs) each class_path n ii (fname # rest) s =
      (if Suc (length (batch s)) = bs \<or> rest = []
       then files_loop run load_image (int bs) each class_path n (Suc ii) rest (run_batch run s1)
       else files_loop run load_image (int bs) each class_path n (Suc ii) rest s1)"
    using assms(1) by (simp add: img s1_def [symmetric] modz iin)
  show ?case
  proof (cases "Suc (length (batch s)) = bs \<or> rest = []")
    case True
    let ?s2 = "run_batch run s1"
    have b2: "batch ?s2 = []" by (simp add: run_batch_eq)
    have "rest \<noteq> [] \<longrightarrow> Suc (length (batch ?s2)) \<le> bs \<and> Suc ii mod bs = Suc (length (batch ?s2)) mod bs"
    proof
      assume "rest \<noteq> []"
      with True have full: "Suc (length (batch s)) = bs" by simp
      then have "ii mod bs = 0" using md by simp
      then have "Suc ii mod bs = Suc 0 mod bs" by (metis mod_Suc_eq)
      then show "Suc (length (batch ?s2)) \<le> bs \<and> Suc ii mod bs = Suc (length (batch ?s2)) mod bs"
        using assms(1) b2 by simp
    qed
    moreover have "rest = [] \<longrightarrow> batch ?s2 = []" using b2 by simp
    moreover have "Suc ii + length rest = Suc n" using Cons.prems(4) by simp
    ultimately have IH: "files_loop run load_image (int bs) each class_path n (Suc ii) rest ?s2 =
      Inr (?s2\<lparr>codes := codes_after run (codes ?s2)
                        (chunks bs (batch ?s2 @ class_images load_image class_path rest)),
             labels := labels ?s2 @ replicate (length rest) each,
             batch := [],
             submitted := submitted ?s2
                          @ chunks bs (batch ?s2 @ class_images load_image class_path rest)\<rparr>)"
      using Cons.IH [OF rest_load, of ?s2 "Suc ii"] by blast
    have ch: "chunks bs (batch s @ img # class_images load_image class_path rest)
        = (batch s @ [img]) # chunks bs (class_images load_image class_path rest)"
    proof (cases "Suc (length (batch s)) = bs")
      case True
      have "chunks bs ((batch s @ [img]) @ class_images load_image class_path rest)
        = (batch s @ [img]) # chunks bs (class_images load_image class_path rest)"
        by (rule chunks_full) (use True in simp_all)
      then show ?thesis by simp
    next
      case False
      with \<open>Suc (length (batch s)) = bs \<or> rest = []\<close> have "rest = []" by simp
      then show ?thesis using le by (simp add: class_images_def chunks_fits)
    qed
    have step: "codes_after run (codes s)
          ((batch s @ [img]) # chunks bs (class_images load_image class_path rest))
        = codes_after run (codes_after run (codes s) [batch s @ [img]])
            (chunks bs (class_images load_image class_path rest))"
      by (rule codes_after_Cons)
    show ?thesis
      unfolding unf imgs ch step using True
      by (simp add: IH b2) (simp add: run_batch_eq s1_def)
  next
    case False
    then have ne: "rest \<noteq> []" and lt: "Suc (length (batch s)) < bs" using le by auto
    have "rest \<noteq> [] \<longrightarrow> Suc (length (batch s1)) \<le> bs \<and> Suc ii mod bs = Suc (length (batch s1)) mod bs"
    proof
      have "Suc ii mod bs = Suc (ii mod bs) mod bs" by (simp add: mod_Suc_eq)
      also have "\<dots> = Suc (Suc (length (batch s)) mod bs) mod bs" by (simp only: md)
      also have "\<dots> = Suc (Suc (length (batch s))) mod bs" by (simp add: mod_Suc_eq)
      finally show "Suc (length (batch s1)) \<le> bs \<and> Suc ii mod bs = Suc (length (batch s1)) mod bs"
        using lt by (simp add: s1_def)
    qed
    moreover have "rest = [] \<longrightarrow> batch s1 = []" using ne by simp
    moreover have "Suc ii + length rest = Suc n" using Cons.prems(4) by simp
    ultimately have IH: "files_loop run load_image (int bs) each class_path n (Suc ii) rest s1 =
      Inr (s1\<lparr>codes := codes_after run (codes s1)
                        (chunks bs (batch s1 @ class_images load_image class_path rest)),
             labels := labels s1 @ replicate (length rest) each,
             batch := [],
             submitted := submitted s1
                          @ chunks bs (batch s1 @ class_images load_image class_path rest)\<rparr>)"
      using Cons.IH [OF rest_load, of s1 "Suc ii"] by blast
    show ?thesis
      unfolding unf imgs using False
      by (simp add: IH) (simp add: s1_def replicate_app_Cons_same)
  qed
qed

lemma files_loop_class:
  assumes "0 < bs" and "all_load load_image class_path files" and "batch s = []"
  shows "files_loop run load_image (int bs) each class_path (length files) 1 files s =
      Inr (s\<lparr>codes := codes_after run (codes s) (chunks bs (class_images load_image class_path files)),
             labels := labels s @ replicate (length files) each,
             batch := [],
             submitted := submitted s @ chunks bs (class_images load_image class_path files)\<rparr>)"
proof -
  have "files_loop run load_image (int bs) each class_path (length files) 1 files s =
      Inr (s\<lparr>codes := codes_after run (codes s)
                        (chunks bs (batch s @ class_images load_image class_path files)),
             labels := labels s @ replicate (length files) each,
             batch := [],
             submitted := submitted s
                          @ chunks bs (batch s @ class_images load_image class_path files)\<rparr>)"
    by (rule files_loop_chunks) (use assms in auto)
  then show ?thesis by (simp add: assms(3))
qed

lemma samples_Cons:
  "samples load_image data_dir ((each, files) # rest) =
     map (\<lambda>img. (each, img)) (class_images load_image (data_dir @ each) files)
     @ samples load_image data_dir rest"
  by (simp add: samples_def)

lemma classes_loop_batches:
  assumes "0 < bs" and "tree_loads load_image data_dir tree" and "batch s = []"
  shows "classes_loop run load_image (int bs) data_dir tree s =
      Inr (s\<lparr>codes := codes_after run (codes s) (class_batches load_image bs data_dir tree),
             labels := labels s @ map fst (samples load_image data_dir tree),
             batch := [],
             submitted := submitted s @ class_batches load_image bs data_dir tree\<rparr>)"
  using assms(2,3)
proof (induction tree arbitrary: s)
  case Nil
  then show ?case by (simp add: class_batches_def samples_def)
next
  case (Cons cls rest)
  obtain each files where cls: "cls = (each, files)" by (cases cls)
  from Cons.prems(1) have ld: "all_load load_image (data_dir @ each) files"
    and rest_ld: "tree_loads load_image data_dir rest"
    by (simp_all add: tree_loads_def cls)
  let ?new = "chunks bs (class_images load_image (data_dir @ each) files)"
  let ?s' = "s\<lparr>codes := codes_after run (codes s) ?new,
             labels := labels s @ replicate (length files) each,
             batch := [],
             submitted := submitted s @ ?new\<rparr>"
  have fl: "files_loop run load_image (int bs) each (data_dir @ each) (length files) 1 files s = Inr ?s'"
    by (rule files_loop_class [OF assms(1) ld Cons.prems(2)])
  have IH: "classes_loop run load_image (int bs) data_dir rest ?s' =
      Inr (?s'\<lparr>codes := codes_after run (codes ?s') (class_batches load_image bs data_dir rest),
             labels := labels ?s' @ map fst (samples load_image data_dir rest),
             batch := [],
             submitted := submitted ?s' @ class_batches load_image bs data_dir rest\<rparr>)"
    by (rule Cons.IH [OF rest_ld]) simp
  have cb: "class_batches load_image bs data_dir ((each, files) # rest)
      = ?new @ class_batches load_image bs data_dir rest"
    by (simp add: class_batches_def)
  have lbl: "map fst (samples load_image data_dir ((each, files) # rest))
      = replicate (length files) each @ map fst (samples load_image data_dir rest)"
    by (simp add: samples_Cons o_def class_images_def map_replicate_const)
  have fl': "files_loop run load_image (int bs) each (data_dir @ each) (length files) (Suc 0) files s = Inr ?s'"
    using fl by simp
  show ?case
    unfolding cls cb lbl codes_after_append
    by (simp add: fl' IH)
qed

lemma concat_class_batches:
  "0 < bs \<Longrightarrow> concat (class_batches load_image bs data_dir tree) = map snd (samples load_image data_dir tree)"
  by (induction tree) (auto simp: class_batches_def samples_def concat_chunks o_def)

lemma class_batches_eq_Nil:
  "0 < bs \<Longrightarrow> class_batches load_image bs data_dir tree = [] \<longleftrightarrow> samples load_image data_dir tree = []"
  by (induction tree) (auto simp: class_batches_def samples_def chunks_eq_Nil)

lemma compute_codes_eq:
  assumes "0 < bs" and "tree_loads load_image data_dir tree"
  shows "compute_codes run load_image (int bs) data_dir tree =
      Inr \<lparr>codes = codes_after run None (class_batches load_image bs data_dir tree),
           labels = map fst (samples load_image data_dir tree),
           batch = [],
           submitted = class_batches load_image bs data_dir tree\<rparr>"
  unfolding compute_codes_def
  by (subst classes_loop_batches [OF assms]) simp_all

text \<open>
  Claim C2 (alignment of the pipeline output). For every directory tree whose files all
  load, every batch size \<open>\<ge> 1\<close> and a network that returns one row per image
  (\<open>run images = map f images\<close>), the cell finishes without raising; the feature array
  has exactly one row per processed image, in the accumulation order of the images
  across all classes (it stays \<^verbatim>\<open>None\<close> when there is no image at all); the label
  sequence has the same length, and for every \<open>i\<close> the \<open>i\<close>-th row is the code of the
  \<open>i\<close>-th accumulated image and the \<open>i\<close>-th label is the class directory of that image.
\<close>

theorem compute_codes_aligned:
  assumes "1 \<le> batch_size"
    and "\<forall>images. run images = map f images"
    and "tree_loads load_image data_dir tree"
  shows "\<exists>s. compute_codes run load_image batch_size data_dir tree = Inr s
           \<and> codes s = (if samples load_image data_dir tree = [] then None
                        else Some (map (f \<circ> snd) (samples load_image data_dir tree)))
           \<and> labels s = map fst (samples load_image data_dir tree)
           \<and> batch s = []
           \<and> length (code_rows (codes s)) = length (samples load_image data_dir tree)
           \<and> length (labels s) = length (samples load_image data_dir tree)
           \<and> (\<forall>i<length (samples load_image data_dir tree).
                 code_rows (codes s) ! i = f (snd (samples load_image data_dir tree ! i))
                 \<and> labels s ! i = fst (samples load_image data_dir tree ! i))"
proof -
  define bs where "bs = nat batch_size"
  have bs: "0 < bs" "batch_size = int bs" using assms(1) by (simp_all add: bs_def)
  have run: "run = map f" using assms(2) by (intro ext) simp
  let ?S = "samples load_image data_dir tree"
  let ?c = "codes_after run None (class_batches load_image bs data_dir tree)"
  have c: "?c = (if ?S = [] then None else Some (map (f \<circ> snd) ?S))"
    unfolding run codes_after_map
    by (simp add: class_batches_eq_Nil [OF bs(1)] concat_class_batches [OF bs(1)] code_rows_def)
  have rows: "code_rows ?c = map (f \<circ> snd) ?S"
    unfolding c by (simp add: code_rows_def)
  show ?thesis
    unfolding bs(2) compute_codes_eq [OF bs(1) assms(3)]
    by (intro exI [of _ "\<lparr>codes = ?c, labels = map fst ?S, batch = [],
                           submitted = class_batches load_image bs data_dir tree\<rparr>"])
       (simp add: rows, simp add: c)
qed

theorem compute_codes_aligned_witness:
  "(1::int) \<le> 2 \<and> (\<forall>images. map length images = map length (images :: string list))
   \<and> tree_loads Some ''d/'' [(''a'', [''1'', ''2'', ''3'']), (''e'', []), (''b'', [''x''])]
   \<and> compute_codes (map length) Some 2 ''d/'' [(''a'', [''1'', ''2'', ''3'']), (''e'', []), (''b'', [''x''])]
       = Inr \<lparr>codes = Some [5, 5, 5, 5], labels = [''a'', ''a'', ''a'', ''b''], batch = [],
              submitted = [[''d/a/1'', ''d/a/2''], [''d/a/3''], [''d/b/x'']]\<rparr>"
  using compute_codes_aligned [of 2 "map length" length Some "''d/''"
          "[(''a'', [''1'', ''2'', ''3'']), (''e'', []), (''b'', [''x''])]"]
  by (simp add: compute_codes_def tree_loads_def all_load_def os_path_join_def run_batch_def)

text \<open>
  Claim C3 (batch completeness). For every file listing of a class whose files all
  load and every batch size \<open>\<ge> 1\<close>, the inner loop, entered with an empty batch
  buffer (as it is at the start of every class, see \<open>classes_loop_batches\<close>),
  finishes without raising. The batches \<open>new\<close> it submits to the network are the
  consecutive pieces of the class's images: their concatenation is the image list, so
  no image is dropped, repeated or padded; their sizes sum to the file count; every
  batch is non-empty and at most \<open>batch_size\<close> long; the last, possibly partial, piece
  is submitted too and the buffer is empty afterwards; the rows returned for every
  submitted batch are appended to \<^verbatim>\<open>codes\<close>. A class with no files leaves the state
  unchanged.
\<close>

theorem files_loop_batch_complete:
  assumes "1 \<le> batch_size" and "all_load load_image class_path files" and "batch s = []"
  shows "\<exists>s' new. files_loop run load_image batch_size each class_path (length files) 1 files s = Inr s'
           \<and> submitted s' = submitted s @ new
           \<and> concat new = class_images load_image class_path files
           \<and> sum_list (map length new) = length files
           \<and> (\<forall>i<length new. new ! i = take (nat batch_size)
                   (drop (i * nat batch_size) (class_images load_image class_path files)))
           \<and> (\<forall>b\<in>set new. b \<noteq> [] \<and> int (length b) \<le> batch_size)
           \<and> codes s' = codes_after run (codes s) new
           \<and> labels s' = labels s @ replicate (length files) each
           \<and> batch s' = []
           \<and> (files = [] \<longrightarrow> s' = s)"
proof -
  define bs where "bs = nat batch_size"
  have bs: "0 < bs" "batch_size = int bs" using assms(1) by (simp_all add: bs_def)
  let ?imgs = "class_images load_image class_path files"
  let ?new = "chunks bs ?imgs"
  let ?s' = "s\<lparr>codes := codes_after run (codes s) ?new,
             labels := labels s @ replicate (length files) each,
             batch := [],
             submitted := submitted s @ ?new\<rparr>"
  have fl: "files_loop run load_image batch_size each class_path (length files) 1 files s = Inr ?s'"
    unfolding bs(2) by (rule files_loop_class [OF bs(1) assms(2,3)])
  have 1: "concat ?new = ?imgs" by (rule concat_chunks [OF bs(1)])
  have 2: "sum_list (map length ?new) = length files"
    using sum_length_chunks [OF bs(1), of ?imgs] by (simp add: class_images_def)
  have 3: "\<forall>i<length ?new. ?new ! i = take bs (drop (i * bs) ?imgs)"
    using nth_chunks [OF bs(1)] by blast
  have 4: "\<forall>b\<in>set ?new. b \<noteq> [] \<and> int (length b) \<le> int bs"
    using chunks_sizes [OF bs(1)] by fastforce
  have 5: "files = [] \<longrightarrow> ?s' = s"
    using assms(3) by (simp add: class_images_def)
  have "files_loop run load_image batch_size each class_path (length files) 1 files s = Inr ?s'
           \<and> submitted ?s' = submitted s @ ?new
           \<and> concat ?new = ?imgs
           \<and> sum_list (map length ?new) = length files
           \<and> (\<forall>i<length ?new. ?new ! i = take bs (drop (i * bs) ?imgs))
           \<and> (\<forall>b\<in>set ?new. b \<noteq> [] \<and> int (length b) \<le> int bs)
           \<and> codes ?s' = codes_after run (codes s) ?new
           \<and> labels ?s' = labels s @ replicate (length files) each
           \<and> batch ?s' = []
           \<and> (files = [] \<longrightarrow> ?s' = s)"
    using fl 1 2 3 4 5 by simp
  then show ?thesis unfolding bs(2) [symmetric] bs_def [symmetric] by blast
qed

theorem files_loop_batch_complete_witness:
  "(1::int) \<le> 2 \<and> all_load Some ''d/a'' [''1'', ''2'', ''3'']
   \<and> batch \<lparr>codes = None, labels = [], batch = ([] :: string list), submitted = []\<rparr> = []
   \<and> files_loop (map length) Some 2 ''a'' ''d/a'' (length [''1'', ''2'', ''3'']) 1 [''1'', ''2'', ''3'']
         \<lparr>codes = None, labels = [], batch = [], submitted = []\<rparr>
       = Inr \<lparr>codes = Some [5, 5, 5], labels = [''a'', ''a'', ''a''], batch = [],
              submitted = [[''d/a/1'', ''d/a/2''], [''d/a/3'']]\<rparr>"
  using files_loop_batch_complete [where batch_size = 2 and load_image = Some and class_path = "''d/a''"
          and files = "[''1'', ''2'', ''3'']" and run = "map length" and each = "''a''"
          and s = "\<lparr>codes = None, labels = [], batch = ([] :: string list), submitted = []\<rparr>"]
  by (simp add: all_load_def os_path_join_def run_batch_def codes_after_def class_images_def)

section \<open>Properties of the feature cache\<close>

lemma join_append_plain: "plain_label l \<Longrightarrow> join_append l = l"
  by (auto simp: join_append_def needs_quote_def plain_label_def list_ex_iff list_all_iff)

lemma join_fields_lines:
  "ls \<noteq> [] \<Longrightarrow> join_fields ls @ [LF] = concat (map (\<lambda>l. l @ [LF]) ls)"
  by (induction ls rule: join_fields.induct) simp_all

lemma join_fields_nonempty: "ls \<noteq> [] \<Longrightarrow> hd ls \<noteq> [] \<Longrightarrow> join_fields ls \<noteq> []"
  by (induction ls rule: join_fields.induct) simp_all

lemma universal_newlines_no_CR:
  "CR \<notin> set xs \<Longrightarrow> universal_newlines (xs @ ys) = xs @ universal_newlines ys"
proof (induction xs)
  case Nil
  then show ?case by simp
next
  case (Cons x xs)
  then have x: "x \<noteq> CR" and xs: "CR \<notin> set xs" by auto
  show ?case
  proof (cases "xs @ ys")
    case Nil
    then show ?thesis using x by simp
  next
    case (Cons d rest)
    have "universal_newlines (x # d # rest) = x # universal_newlines (d # rest)"
      using x by simp
    then show ?thesis using Cons Cons.IH [OF xs] by simp
  qed
qed

lemma universal_newlines_written:
  assumes "CR \<notin> set xs"
  shows "universal_newlines (xs @ [CR, LF]) = xs @ [LF]"
  using universal_newlines_no_CR [OF assms, of "[CR, LF]"] by simp

lemma split_lines_line:
  "LF \<notin> set l \<Longrightarrow> split_lines cur (l @ LF # rest) = (cur @ l @ [LF]) # split_lines [] rest"
  by (induction l arbitrary: cur) auto

lemma split_lines_lines:
  "list_all (\<lambda>l. LF \<notin> set l) ls
     \<Longrightarrow> split_lines [] (concat (map (\<lambda>l. l @ [LF]) ls)) = map (\<lambda>l. l @ [LF]) ls"
proof (induction ls)
  case Nil
  then show ?case by simp
next
  case (Cons l ls)
  then have "LF \<notin> set l" by simp
  from split_lines_line [OF this, of "[]" "concat (map (\<lambda>l. l @ [LF]) ls)"] Cons show ?case
    by simp
qed

lemma set_join_fields: "set (join_fields ls) \<subseteq> insert LF (\<Union> (set ` set ls))"
  by (induction ls rule: join_fields.induct) auto

lemma file_lines_written:
  assumes "ls \<noteq> []" and "list_all plain_label ls"
  shows "file_lines (csv_writerow ls) = map (\<lambda>l. l @ [LF]) ls"
proof -
  have ja: "map join_append ls = ls"
    using assms(2) by (induction ls) (simp_all add: join_append_plain)
  have "hd ls \<noteq> []" using assms by (cases ls) (simp_all add: plain_label_def)
  then have ne: "join_fields ls \<noteq> []" by (rule join_fields_nonempty [OF assms(1)])
  have w: "csv_writerow ls = join_fields ls @ [CR, LF]"
    using ne by (simp add: csv_writerow_def ja)
  have "\<forall>l\<in>set ls. CR \<notin> set l"
    using assms(2) by (auto simp: list_all_iff plain_label_def)
  then have "CR \<notin> set (join_fields ls)" using set_join_fields [of ls] by auto
  then have "universal_newlines (csv_writerow ls) = join_fields ls @ [LF]"
    unfolding w by (rule universal_newlines_written)
  also have "\<dots> = concat (map (\<lambda>l. l @ [LF]) ls)" by (rule join_fields_lines [OF assms(1)])
  finally have "file_lines (csv_writerow ls) = split_lines [] (concat (map (\<lambda>l. l @ [LF]) ls))"
    by (simp add: file_lines_def)
  also have "\<dots> = map (\<lambda>l. l @ [LF]) ls"
    by (rule split_lines_lines) (use assms(2) in \<open>auto simp: list_all_iff plain_label_def\<close>)
  finally show ?thesis .
qed

lemma in_field_chars:
  assumes "p_state r = IN_FIELD"
    and "list_all (\<lambda>c. c \<noteq> LF \<and> c \<noteq> CR \<and> c \<noteq> quotechar) cs"
    and "length (p_field r) + length cs \<le> field_limit"
  shows "process_line r (cs @ rest) = process_line (r\<lparr>p_field := p_field r @ cs\<rparr>) rest"
  using assms
proof (induction cs arbitrary: r)
  case Nil
  then show ?case by simp
next
  case (Cons c cs)
  let ?r' = "r\<lparr>p_field := p_field r @ [c]\<rparr>"
  have step: "parse_process_char r (Some c) = Inr ?r'"
    using Cons.prems
    by (simp add: parse_process_char_def add_char_then_def parse_add_char_def)
  have "process_line ?r' (cs @ rest) = process_line (?r'\<lparr>p_field := p_field ?r' @ cs\<rparr>) rest"
    by (rule Cons.IH) (use Cons.prems in simp_all)
  then show ?case by (simp add: step)
qed

lemma process_plain_line:
  assumes "plain_label l"
  shows "process_line parse_reset (l @ [LF]) = Inr \<lparr>p_state = START_RECORD, p_fields = [l], p_field = []\<rparr>"
proof -
  from assms obtain c cs where l: "l = c # cs" by (cases l) (auto simp: plain_label_def)
  from assms have ok: "c \<noteq> LF" "c \<noteq> CR" "c \<noteq> quotechar"
    and oks: "list_all (\<lambda>c. c \<noteq> LF \<and> c \<noteq> CR \<and> c \<noteq> quotechar) cs"
    and len: "Suc (length cs) \<le> field_limit"
    by (simp_all add: plain_label_def l)
  let ?r1 = "\<lparr>p_state = IN_FIELD, p_fields = [], p_field = [c]\<rparr>"
  have first: "parse_process_char parse_reset (Some c) = Inr ?r1"
    using ok
    by (simp add: parse_process_char_def parse_reset_def start_field_def add_char_then_def
        parse_add_char_def field_limit_def)
  have "process_line ?r1 (cs @ [LF]) = process_line (?r1\<lparr>p_field := p_field ?r1 @ cs\<rparr>) [LF]"
    by (rule in_field_chars) (use oks len in simp_all)
  also have "\<dots> = Inr \<lparr>p_state = START_RECORD, p_fields = [c # cs], p_field = []\<rparr>"
    by (simp add: parse_process_char_def parse_save_field_def)
  finally show ?thesis by (simp add: l first)
qed

lemma reader_rows_plain:
  "list_all plain_label ls \<Longrightarrow> reader_rows parse_reset (map (\<lambda>l. l @ [LF]) ls) = Inr (map (\<lambda>l. [l]) ls)"
proof (induction ls)
  case Nil
  then show ?case by (simp add: parse_reset_def)
next
  case (Cons l ls)
  then have l: "plain_label l" and ls: "list_all plain_label ls" by simp_all
  show ?case
    by (simp add: process_plain_line [OF l] Cons.IH [OF ls])
qed

lemma csv_round_trip:
  assumes "ls \<noteq> []" and "list_all plain_label ls"
  shows "csv_reader (csv_writerow ls) = Inr (map (\<lambda>l. [l]) ls)"
  by (simp add: csv_reader_def file_lines_written [OF assms] reader_rows_plain [OF assms(2)])

lemma np_array_rows:
  "np_array (map (\<lambda>l. [l]) ls) = Inr (if ls = [] then Vec [] else Mat (map (\<lambda>l. [l]) ls))"
  by (cases ls) (simp_all add: np_array_def list_all_iff)

lemma squeeze_rows:
  "squeeze (if ls = [] then Vec [] else Mat (map (\<lambda>l. [l]) ls))
     = (case ls of [l] \<Rightarrow> Scalar l | _ \<Rightarrow> Vec ls)"
proof (cases ls)
  case Nil
  then show ?thesis by simp
next
  case (Cons l rest)
  then show ?thesis
    by (cases rest) (simp_all add: list_all_iff o_def)
qed

lemma take_drop_concat_rows:
  assumes "\<forall>r\<in>set rows. length r = d" and "i < length rows"
  shows "take d (drop (i * d) (concat rows)) = rows ! i"
  using assms
proof (induction rows arbitrary: i)
  case Nil
  then show ?case by simp
next
  case (Cons r rows)
  then show ?case by (cases i) (simp_all add: add.commute)
qed

lemma length_concat_rows:
  "\<forall>r\<in>set rows. length r = d \<Longrightarrow> length (concat rows) = length rows * d"
  by (induction rows) simp_all

lemma reshape_concat:
  assumes "\<forall>r\<in>set rows. length r = d" and "rows \<noteq> []"
  shows "np_reshape_rows (length rows) (concat rows) = Inr rows"
proof -
  have len: "length (concat rows) = length rows * d" by (rule length_concat_rows [OF assms(1)])
  have n: "0 < length rows" using assms(2) by simp
  have dv: "length (concat rows) div length rows = d" using n by (simp add: len)
  have "map (\<lambda>i. take d (drop (i * d) (concat rows))) [0..<length rows] = map (\<lambda>i. rows ! i) [0..<length rows]"
    by (rule map_cong) (simp_all add: take_drop_concat_rows [OF assms(1)])
  also have "\<dots> = rows" by (rule map_nth)
  finally show ?thesis using n by (simp add: np_reshape_rows_def dv) (simp add: len)
qed

lemma read_labels_written:
  assumes "ls \<noteq> []" and "list_all plain_label ls"
  shows "read_labels (csv_writerow ls) = Inr (case ls of [l] \<Rightarrow> Scalar l | _ \<Rightarrow> Vec ls)"
proof -
  have "filter (\<lambda>each. length each > 0) (map (\<lambda>l. [l]) ls) = map (\<lambda>l. [l]) ls"
    by (induction ls) simp_all
  then show ?thesis
    using assms(1)
    by (simp add: read_labels_def csv_round_trip [OF assms] np_array_rows squeeze_rows [symmetric])
qed

lemma read_cache_reshape:
  assumes "read_labels (labels_file fs) = Inr ls" and "np_len ls = Inr n"
  shows "read_cache fs =
           (case np_reshape_rows n (codes_file fs) of Inl e \<Rightarrow> Inl e | Inr cs \<Rightarrow> Inr (cs, ls))"
  by (simp add: read_cache_def assms)

text \<open>
  For at least two samples the cache round trip is exact: a rectangular array with
  \<open>N \<ge> 2\<close> rows and \<open>N\<close> plain labels is read back unchanged, values bit for bit
  and labels in the original order.
\<close>

lemma write_then_read_ok:
  assumes "2 \<le> length rows" and "length ls = length rows"
    and "\<forall>r\<in>set rows. length r = d" and "list_all plain_label ls"
  shows "write_then_read (Some rows) ls = Inr (rows, Vec ls)"
proof -
  have ne: "ls \<noteq> []" "rows \<noteq> []" using assms(1,2) by auto
  have two: "(case ls of [l] \<Rightarrow> Scalar l | _ \<Rightarrow> Vec ls) = Vec ls"
    using assms(1,2) by (cases ls; cases "tl ls") auto
  have rl: "read_labels (csv_writerow ls) = Inr (Vec ls)"
    using read_labels_written [OF ne(1) assms(4)] by (simp only: two)
  have rs: "np_reshape_rows (length ls) (concat rows) = Inr rows"
    unfolding assms(2) by (rule reshape_concat [OF assms(3) ne(2)])
  have "read_cache \<lparr>codes_file = concat rows, labels_file = csv_writerow ls\<rparr> = Inr (rows, Vec ls)"
    by (subst read_cache_reshape [where ls = "Vec ls" and n = "length ls"]) (simp_all add: rl rs)
  then show ?thesis by (simp add: write_then_read_def write_cache_def)
qed

text \<open>
  Without any sample there is nothing to read back: the batching cell leaves \<^verbatim>\<open>codes\<close>
  at \<^verbatim>\<open>None\<close>, on which the write cell raises, and an array without rows is written
  as an empty file whose shape \<^verbatim>\<open>reshape((0, -1))\<close> cannot recover.
\<close>

lemma write_then_read_no_samples:
  "write_then_read None ls = Inl AttributeError"
  "write_then_read (Some []) [] = Inl ValueError"
proof -
  show "write_then_read None ls = Inl AttributeError"
    by (simp add: write_then_read_def write_cache_def)
  have "csv_reader (csv_writerow []) = Inr [[]]"
    by (simp add: csv_reader_def csv_writerow_def file_lines_def parse_reset_def
        parse_process_char_def)
  then have "read_labels (csv_writerow []) = Inr (Vec [])"
    by (simp add: read_labels_def np_array_def)
  then show "write_then_read (Some []) [] = Inl ValueError"
    by (simp add: write_then_read_def write_cache_def read_cache_def np_reshape_rows_def)
qed

lemma plain_daisy: "plain_label ''daisy''"
  by (simp add: plain_label_def field_limit_def)

text \<open>
  Claim C1 (round trip of the feature cache). The claim promises the round trip for
  every feature array. With exactly one sample it does not hold: the labels file has
  one line, \<^verbatim>\<open>np.array([['daisy']]).squeeze()\<close> is an array without axes, and
  \<^verbatim>\<open>len(labels)\<close> raises \<^verbatim>\<open>TypeError\<close> before \<^verbatim>\<open>codes\<close> is reshaped. The theorem
  runs the two cells on a one-row array (the floats 1.0 and 2.0) with the label
  \<^verbatim>\<open>daisy\<close>.
\<close>

theorem write_then_read_single_sample:
  "write_then_read (Some [[0x3F800000, 0x40000000]]) [''daisy''] = Inl TypeError"
proof -
  have "read_labels (csv_writerow [''daisy'']) = Inr (Scalar ''daisy'')"
    using read_labels_written [of "[''daisy'']"] plain_daisy by simp
  then show ?thesis
    by (simp add: write_then_read_def write_cache_def read_cache_def)
qed




section \<open>Properties of the three-way split\<close>

lemma halve_holdout_eq:
  "halve_holdout val_idx = (take (length val_idx div 2) val_idx, drop (length val_idx div 2) val_idx)"
  by (simp add: halve_holdout_def Let_def)

text \<open>
  Claim C6 (halving the holdout), as the code has it. The validation indices are the
  first \<open>\<lfloor>L/2\<rfloor>\<close> entries of the holdout sequence of length \<open>L\<close> and the test
  indices are all the remaining ones, in order; nothing is lost. The test part is never
  smaller than the validation part and at most one larger, and the two parts have equal
  size exactly when \<open>L\<close> is even.
\<close>

theorem halve_holdout_sizes:
  assumes "halve_holdout val_idx = (v, t)"
  shows "v @ t = val_idx
       \<and> length v = length val_idx div 2
       \<and> length t = length val_idx - length val_idx div 2
       \<and> length v \<le> length t \<and> length t \<le> length v + 1
       \<and> (length v = length t \<longleftrightarrow> even (length val_idx))"
proof -
  from assms have v: "v = take (length val_idx div 2) val_idx"
    and t: "t = drop (length val_idx div 2) val_idx"
    by (simp_all add: halve_holdout_eq)
  have 1: "v @ t = val_idx" by (simp add: v t)
  have 2: "length v = length val_idx div 2" by (simp add: v)
  have 3: "length t = length val_idx - length val_idx div 2" by (simp add: t)
  have 4: "length v \<le> length t \<and> length t \<le> length v + 1" unfolding 2 3 by arith
  have 5: "length v = length t \<longleftrightarrow> even (length val_idx)" unfolding 2 3 by presburger
  from 1 2 3 4 5 show ?thesis by blast
qed

theorem halve_holdout_sizes_witness:
  "halve_holdout [4, 8, 15, 16, 23] = ([4, 8], [15, 16, 23])
   \<and> length [4, 8 :: nat] = length [4, 8, 15, 16, 23 :: nat] div 2
   \<and> length [15, 16, 23 :: nat] = length [4, 8 :: nat] + 1"
proof -
  have h: "halve_holdout [4, 8, 15, 16, 23] = ([4, 8], [15, 16, 23])"
    by (simp add: halve_holdout_eq)
  from halve_holdout_sizes [OF h] h show ?thesis by simp
qed

text \<open>
  Claim C6 as stated (two halves of equal size for every holdout sequence) fails for a
  holdout of three indices: validation gets one index and test gets two.
\<close>

theorem halve_holdout_odd_counterexample:
  "halve_holdout [0, 1, 2] = ([0], [1, 2]) \<and> length [0 :: nat] \<noteq> length [1, 2 :: nat]"
  by (simp add: halve_holdout_eq)

text \<open>
  Claim C4 (split partition). Given a first split that holds every index below \<open>n\<close>
  exactly once (the contract of the external splitter), the three index arrays the cell
  produces are pairwise disjoint, their union is \<open>{0, ..., n-1}\<close>, and no index occurs
  twice: every sample index is in exactly one of train, validation and test.
\<close>

theorem split_indices_partition:
  assumes "shuffle_split n split" and "split_indices split = (train_idx, val_idx, test_idx)"
  shows "set train_idx \<inter> set val_idx = {}
       \<and> set train_idx \<inter> set test_idx = {}
       \<and> set val_idx \<inter> set test_idx = {}
       \<and> set train_idx \<union> set val_idx \<union> set test_idx = {0..<n}
       \<and> distinct (train_idx @ val_idx @ test_idx)"
proof -
  obtain tr ho where split: "split = (tr, ho)" by (cases split)
  from assms(2) have tr: "train_idx = tr"
    and v: "val_idx = take (length ho div 2) ho"
    and t: "test_idx = drop (length ho div 2) ho"
    by (simp_all add: split_indices_def split halve_holdout_eq)
  have ho: "val_idx @ test_idx = ho" by (simp add: v t)
  from assms(1) have d: "distinct (train_idx @ val_idx @ test_idx)"
    and s: "set (train_idx @ val_idx @ test_idx) = {0..<n}"
    by (simp_all add: shuffle_split_def split tr ho)
  from d have "set train_idx \<inter> set val_idx = {}" "set train_idx \<inter> set test_idx = {}"
    "set val_idx \<inter> set test_idx = {}" by auto
  moreover from s have "set train_idx \<union> set val_idx \<union> set test_idx = {0..<n}" by auto
  ultimately show ?thesis using d by blast
qed

theorem split_indices_partition_witness:
  "shuffle_split 10 ([0, 3, 5, 6, 7, 1, 4, 9], [2, 8])
   \<and> split_indices ([0, 3, 5, 6, 7, 1, 4, 9], [2, 8]) = ([0, 3, 5, 6, 7, 1, 4, 9], [2], [8])
   \<and> set [0, 3, 5, 6, 7, 1, 4, 9] \<union> set [2] \<union> set [8] = {0..<10::nat}"
proof -
  have h1: "shuffle_split 10 ([0, 3, 5, 6, 7, 1, 4, 9], [2, 8])"
    by (auto simp: shuffle_split_def)
  have h2: "split_indices ([0, 3, 5, 6, 7, 1, 4, 9], [2, 8]) = ([0, 3, 5, 6, 7, 1, 4, 9], [2], [8])"
    by (simp add: split_indices_def halve_holdout_eq)
  from split_indices_partition [OF h1 h2] h1 h2 show ?thesis by blast
qed

section \<open>Properties of the label encoding\<close>

lemma indicator_row:
  assumes "distinct cs" and "j < length cs"
  shows "map (\<lambda>c. if c = cs ! j then 1 else 0) cs = one_hot (length cs) j"
proof (rule nth_equalityI)
  show "length (map (\<lambda>c. if c = cs ! j then 1 else 0) cs) = length (one_hot (length cs) j)"
    by (simp add: one_hot_def)
next
  fix i assume "i < length (map (\<lambda>c. if c = cs ! j then (1::int) else 0) cs)"
  then have i: "i < length cs" by simp
  have "(cs ! i = cs ! j) = (i = j)"
    using assms i by (simp add: nth_eq_iff_index_eq)
  then show "map (\<lambda>c. if c = cs ! j then 1 else 0) cs ! i = one_hot (length cs) j ! i"
    using i by (auto simp: one_hot_def)
qed

lemma classes_facts:
  "distinct (sort (remdups ls))" "set (sort (remdups ls)) = set ls"
  "length (sort (remdups ls)) = card (set ls)"
  by (simp_all add: length_remdups_card_conv)

text \<open>
  What the encoder returns for a non-empty label sequence: its classes are the sorted
  distinct labels, \<open>k\<close> of them, and there is one row per label. With three or more
  classes the row of a label is the one-hot vector of width \<open>k\<close> with its 1 at the
  position of the label among the classes; with two classes it is a single entry, with
  one class the single entry 0.
\<close>

lemma labels_vecs_rows:
  assumes "ls \<noteq> []"
  shows "\<exists>vecs classes k. labels_vecs ls = Inr vecs
           \<and> classes = sort (remdups ls) \<and> k = card (set ls)
           \<and> length classes = k \<and> 1 \<le> k
           \<and> length vecs = length ls
           \<and> (3 \<le> k \<longrightarrow> (\<forall>i<length ls. \<exists>j<k. classes ! j = ls ! i \<and> vecs ! i = one_hot k j))
           \<and> (k = 2 \<longrightarrow> (\<forall>i<length ls. vecs ! i = [if ls ! i = classes ! 1 then 1 else 0]))
           \<and> (k = 1 \<longrightarrow> (\<forall>i<length ls. vecs ! i = [0]))"
proof -
  define classes where "classes = sort (remdups ls)"
  define k where "k = card (set ls)"
  have d: "distinct classes" and st: "set classes = set ls" and len: "length classes = k"
    unfolding classes_def k_def by (rule classes_facts)+
  have k1: "1 \<le> k"
  proof -
    have "0 < card (set ls)" using assms by (simp add: card_gt_0_iff)
    then show ?thesis by (simp add: k_def)
  qed
  have lv: "labels_vecs ls = Inr (lb_transform classes ls)"
    using assms by (simp add: labels_vecs_def lb_fit_def classes_def)
  have multi: "\<forall>i<length ls. \<exists>j<k. classes ! j = ls ! i \<and> lb_transform classes ls ! i = one_hot k j"
    if "3 \<le> k"
  proof (intro allI impI)
    fix i assume i: "i < length ls"
    then have "ls ! i \<in> set classes" by (simp add: st)
    then obtain j where j: "j < length classes" "classes ! j = ls ! i"
      by (auto simp: in_set_conv_nth)
    have "lb_transform classes ls ! i = map (\<lambda>c. if c = ls ! i then 1 else 0) classes"
      using that i by (simp add: lb_transform_def len)
    also have "\<dots> = one_hot (length classes) j"
      using indicator_row [OF d j(1)] by (simp add: j(2))
    finally show "\<exists>j<k. classes ! j = ls ! i \<and> lb_transform classes ls ! i = one_hot k j"
      using j by (auto simp: len)
  qed
  have two: "\<forall>i<length ls. lb_transform classes ls ! i = [if ls ! i = classes ! 1 then 1 else 0]"
    if "k = 2"
    using that by (simp add: lb_transform_def len)
  have one: "\<forall>i<length ls. lb_transform classes ls ! i = [0]" if "k = 1"
    using that by (simp add: lb_transform_def len)
  have lenv: "length (lb_transform classes ls) = length ls"
    by (simp add: lb_transform_def)
  show ?thesis
    using lv len k1 lenv multi two one classes_def k_def by blast
qed

text \<open>
  Claim C7 (label encoding). The claim, like the notebook's own text ("one-hot encode
  our labels", "one unit for each class"), asks for one-hot rows whose width is the
  number of distinct classes. With exactly two classes the cell does not deliver them:
  every row has a single entry, so \<^verbatim>\<open>labels_vecs.shape[1]\<close>, from which the classifier
  takes its number of output units, is 1 instead of 2. The theorem runs the cell on
  three labels of two classes.
\<close>

theorem labels_vecs_two_classes:
  "labels_vecs [''daisy'', ''roses'', ''daisy''] = Inr [[0], [1], [0]]
   \<and> card (set [''daisy'', ''roses'', ''daisy'']) = 2
   \<and> length [0 :: int] \<noteq> 2"
proof -
  have 1: "labels_vecs [''daisy'', ''roses'', ''daisy''] = Inr [[0], [1], [0]]"
    by code_simp
  have 2: "card (set [''daisy'', ''roses'', ''daisy'']) = 2"
    by code_simp
  from 1 2 show ?thesis by simp
qed

section \<open>Properties of the training loop\<close>

lemma validation_check_eq:
  "validation_check g val e s =
     s\<lparr>printed := printed s @ [ValidationAcc e (iteration s) (Value (accuracy_op g (variables s) val))]\<rparr>"
  by (simp add: validation_check_def sess_run_def)

lemma train_step_eq:
  "train_step g val e s feed =
     s\<lparr>variables := train_op g (variables s) feed,
       iteration := iteration s + 1,
       printed := printed s @ step_lines g val (variables s) (iteration s) e feed\<rparr>"
  by (simp add: train_step_def validation_check_eq sess_run_def Let_def step_lines_def)

lemma cadence_step: "(i + 1) div 5 - i div 5 = (if (i + 1) mod 5 = 0 then 1 else (0::int))"
  by presburger

lemma validation_lines_step:
  "length (filter is_validation (step_lines g val vars i e feed)) = (if (i + 1) mod 5 = 0 then 1 else 0)"
  by (simp add: step_lines_def)

lemma train_steps:
  "variables (foldl (train_step g val e) s bs) = foldl (train_op g) (variables s) bs
   \<and> iteration (foldl (train_step g val e) s bs) = iteration s + int (length bs)
   \<and> int (length (filter is_validation (printed (foldl (train_step g val e) s bs))))
       = int (length (filter is_validation (printed s)))
         + ((iteration s + int (length bs)) div 5 - iteration s div 5)"
proof (induction bs arbitrary: s)
  case Nil
  then show ?case by simp
next
  case (Cons b bs)
  let ?s1 = "train_step g val e s b"
  have v: "variables ?s1 = train_op g (variables s) b" by (simp add: train_step_eq)
  have i: "iteration ?s1 = iteration s + 1" by (simp add: train_step_eq)
  have p: "int (length (filter is_validation (printed ?s1)))
      = int (length (filter is_validation (printed s))) + ((iteration s + 1) div 5 - iteration s div 5)"
    unfolding cadence_step by (simp add: train_step_eq validation_lines_step)
  from Cons.IH [of ?s1] show ?case
    unfolding v i p by (simp add: add.assoc add.commute)
qed

lemma run_lines_index:
  "run_lines_rec g val vars i steps =
     concat (map (\<lambda>k. step_lines g val (foldl (train_op g) vars (take k (map snd steps))) (i + int k)
                          (fst (steps ! k)) (snd (steps ! k)))
                 [0..<length steps])"
proof (induction steps arbitrary: vars i)
  case Nil
  then show ?case by simp
next
  case (Cons step rest)
  have "[0..<length (step # rest)] = 0 # map Suc [0..<length rest]"
    by (simp add: upt_conv_Cons map_Suc_upt del: upt_Suc)
  then show ?case
    by (simp add: Cons.IH o_def add.assoc del: upt_Suc)
qed

lemma run_steps:
  "foldl (\<lambda>s step. train_step g val (fst step) s (snd step)) s steps =
     s\<lparr>variables := foldl (train_op g) (variables s) (map snd steps),
       iteration := iteration s + int (length steps),
       printed := printed s @ run_lines_rec g val (variables s) (iteration s) steps\<rparr>"
proof (induction steps arbitrary: s)
  case Nil
  then show ?case by simp
next
  case (Cons step rest)
  let ?F = "\<lambda>s step. train_step g val (fst step) s (snd step)"
  let ?s1 = "train_step g val (fst step) s (snd step)"
  have "foldl ?F s (step # rest) = foldl ?F ?s1 rest" by simp
  also have "\<dots> = ?s1\<lparr>variables := foldl (train_op g) (variables ?s1) (map snd rest),
       iteration := iteration ?s1 + int (length rest),
       printed := printed ?s1 @ run_lines_rec g val (variables ?s1) (iteration ?s1) rest\<rparr>"
    by (rule Cons.IH)
  also have "\<dots> = s\<lparr>variables := foldl (train_op g) (variables s) (map snd (step # rest)),
       iteration := iteration s + int (length (step # rest)),
       printed := printed s @ run_lines_rec g val (variables s) (iteration s) (step # rest)\<rparr>"
    by (simp add: train_step_eq add.assoc)
  finally show ?case .
qed

lemma foldl_epoch:
  "foldl (\<lambda>s step. train_step g val (fst step) s (snd step)) s (map (Pair e) bs)
     = foldl (train_step g val e) s bs"
  by (induction bs arbitrary: s) simp_all

lemma train_epochs_eq:
  assumes "get_batches (fst tr) (snd tr) 10 = Inr bs"
  shows "train_epochs g tr val es s =
           Inr (foldl (\<lambda>s step. train_step g val (fst step) s (snd step)) s (epoch_steps es bs))"
proof (induction es arbitrary: s)
  case Nil
  then show ?case by (simp add: epoch_steps_def)
next
  case (Cons e es)
  have ep: "train_epoch g tr val e s = Inr (foldl (train_step g val e) s bs)"
    by (simp add: train_epoch_def assms)
  have st: "epoch_steps (e # es) bs = map (Pair e) bs @ epoch_steps es bs"
    by (simp add: epoch_steps_def)
  show ?case
    unfolding st foldl_append foldl_epoch
    by (simp add: ep Cons.IH)
qed

lemma py_range_epochs: "py_range 0 epochs 1 = Inr (map int [0..<nat epochs])"
  by (simp add: py_range_def)

lemma train_eq:
  assumes "get_batches (fst tr) (snd tr) 10 = Inr bs"
  shows "train g init tr val epochs =
           Inr \<lparr>variables = foldl (train_op g) init (map snd (epoch_steps (map int [0..<nat epochs]) bs)),
                iteration = int (length (epoch_steps (map int [0..<nat epochs]) bs)),
                printed = expected_log g val init (epoch_steps (map int [0..<nat epochs]) bs)\<rparr>"
  unfolding train_def py_range_epochs
  by (simp add: train_epochs_eq [OF assms] run_steps run_lines_index expected_log_def)

text \<open>
  Claim C9 (validation cadence and frame). The validation check evaluates the accuracy
  on the whole validation partition \<open>val\<close> and leaves the session's variables (weights
  and biases) and the iteration counter as they were; it only prints a line. A gradient
  step changes the variables by the optimizer's update alone, increments the counter and
  prints \<open>step_lines\<close>: its training loss and, exactly when the incremented counter is
  a multiple of 5, the accuracy of the updated variables on \<open>val\<close>. Over any run of
  batches the variables are those obtained by the optimizer's updates alone, and the
  number of validation checks is the number of multiples of 5 the counter has passed.
  A whole training run whose minibatch generator yields \<open>batches\<close> ends with the
  variables produced by the optimizer's updates over all steps of all epochs, the
  counter at the number of steps, and exactly the output \<open>expected_log\<close>.
\<close>

theorem validation_check_frame:
  "variables (validation_check g val e s) = variables s
   \<and> iteration (validation_check g val e s) = iteration s
   \<and> printed (validation_check g val e s)
       = printed s @ [ValidationAcc e (iteration s) (Value (accuracy_op g (variables s) val))]
   \<and> train_step g val e s feed
       = s\<lparr>variables := train_op g (variables s) feed,
           iteration := iteration s + 1,
           printed := printed s @ step_lines g val (variables s) (iteration s) e feed\<rparr>
   \<and> variables (train_step g val e s feed) = train_op g (variables s) feed
   \<and> iteration (train_step g val e s feed) = iteration s + 1
   \<and> length (filter is_validation (printed (train_step g val e s feed)))
       = length (filter is_validation (printed s)) + (if (iteration s + 1) mod 5 = 0 then 1 else 0)
   \<and> variables (foldl (train_step g val e) s bs) = foldl (train_op g) (variables s) bs
   \<and> iteration (foldl (train_step g val e) s bs) = iteration s + int (length bs)
   \<and> int (length (filter is_validation (printed (foldl (train_step g val e) s bs))))
       = int (length (filter is_validation (printed s)))
         + ((iteration s + int (length bs)) div 5 - iteration s div 5)
   \<and> (get_batches (fst train_set) (snd train_set) 10 = Inr batches \<longrightarrow>
        train g init train_set val epochs
          = Inr \<lparr>variables = foldl (train_op g) init
                               (map snd (epoch_steps (map int [0..<nat epochs]) batches)),
                 iteration = int (length (epoch_steps (map int [0..<nat epochs]) batches)),
                 printed = expected_log g val init
                             (epoch_steps (map int [0..<nat epochs]) batches)\<rparr>)"
proof -
  have 1: "variables (validation_check g val e s) = variables s"
    and 2: "iteration (validation_check g val e s) = iteration s"
    and 3: "printed (validation_check g val e s)
       = printed s @ [ValidationAcc e (iteration s) (Value (accuracy_op g (variables s) val))]"
    by (simp_all add: validation_check_eq)
  have 4: "variables (train_step g val e s feed) = train_op g (variables s) feed"
    and 5: "iteration (train_step g val e s feed) = iteration s + 1"
    and 6: "length (filter is_validation (printed (train_step g val e s feed)))
       = length (filter is_validation (printed s)) + (if (iteration s + 1) mod 5 = 0 then 1 else 0)"
    by (simp_all add: train_step_eq validation_lines_step)
  from 1 2 3 4 5 6 train_step_eq [of g val e s feed] train_steps [of g val e s bs]
    train_eq [of train_set batches g init val epochs]
  show ?thesis by blast
qed

theorem validation_check_frame_witness:
  "get_batches (fst ([0, 1, 2, 3, 4, 5, 6, 7, 8, 9 :: nat], [0, 1, 2, 3, 4, 5, 6, 7, 8, 9 :: nat]))
       (snd ([0, 1, 2, 3, 4, 5, 6, 7, 8, 9 :: nat], [0, 1, 2, 3, 4, 5, 6, 7, 8, 9 :: nat])) 10
     = Inr [([0], [0]), ([1], [1]), ([2], [2]), ([3], [3]), ([4], [4]),
            ([5], [5]), ([6], [6]), ([7], [7]), ([8], [8]), ([9], [9])]
   \<and> train \<lparr>cost_op = (\<lambda>p f. p), train_op = (\<lambda>p f. p + 1),
              accuracy_op = (\<lambda>p f. 100 * p + int (length (fst f)))\<rparr>
        0 ([0, 1, 2, 3, 4, 5, 6, 7, 8, 9 :: nat], [0, 1, 2, 3, 4, 5, 6, 7, 8, 9 :: nat])
        ([20, 21, 22 :: nat], [20, 21, 22 :: nat]) 1
     = Inr \<lparr>variables = 10, iteration = 10,
            printed = [TrainingLoss 1 0 (Value 0), TrainingLoss 1 1 (Value 1),
                       TrainingLoss 1 2 (Value 2), TrainingLoss 1 3 (Value 3),
                       TrainingLoss 1 4 (Value 4), ValidationAcc 0 5 (Value 503),
                       TrainingLoss 1 5 (Value 5), TrainingLoss 1 6 (Value 6),
                       TrainingLoss 1 7 (Value 7), TrainingLoss 1 8 (Value 8),
                       TrainingLoss 1 9 (Value 9), ValidationAcc 0 10 (Value 1003)]\<rparr>"
proof -
  let ?g = "\<lparr>cost_op = (\<lambda>(p::int) (f :: nat list \<times> nat list). p), train_op = (\<lambda>p f. p + 1),
             accuracy_op = (\<lambda>p f. 100 * p + int (length (fst f)))\<rparr>"
  let ?tr = "([0, 1, 2, 3, 4, 5, 6, 7, 8, 9 :: nat], [0, 1, 2, 3, 4, 5, 6, 7, 8, 9 :: nat])"
  let ?val = "([20, 21, 22 :: nat], [20, 21, 22 :: nat])"
  let ?bs = "[([0], [0]), ([1], [1]), ([2], [2]), ([3], [3]), ([4], [4]),
              ([5], [5]), ([6], [6]), ([7], [7]), ([8], [8]), ([9 :: nat], [9 :: nat])]"
  have h: "get_batches (fst ?tr) (snd ?tr) 10 = Inr ?bs"
    by code_simp
  have run: "train ?g 0 ?tr ?val 1
      = Inr \<lparr>variables = foldl (train_op ?g) 0 (map snd (epoch_steps (map int [0..<nat 1]) ?bs)),
             iteration = int (length (epoch_steps (map int [0..<nat 1]) ?bs)),
             printed = expected_log ?g ?val 0 (epoch_steps (map int [0..<nat 1]) ?bs)\<rparr>"
    using h validation_check_frame [where g = ?g and val = ?val and train_set = ?tr
        and batches = ?bs and init = 0 and epochs = 1]
    by blast
  have v: "\<lparr>variables = foldl (train_op ?g) 0 (map snd (epoch_steps (map int [0..<nat 1]) ?bs)),
             iteration = int (length (epoch_steps (map int [0..<nat 1]) ?bs)),
             printed = expected_log ?g ?val 0 (epoch_steps (map int [0..<nat 1]) ?bs)\<rparr>
      = \<lparr>variables = 10, iteration = 10,
            printed = [TrainingLoss 1 0 (Value 0), TrainingLoss 1 1 (Value 1),
                       TrainingLoss 1 2 (Value 2), TrainingLoss 1 3 (Value 3),
                       TrainingLoss 1 4 (Value 4), ValidationAcc 0 5 (Value 503),
                       TrainingLoss 1 5 (Value 5), TrainingLoss 1 6 (Value 6),
                       TrainingLoss 1 7 (Value 7), TrainingLoss 1 8 (Value 8),
                       TrainingLoss 1 9 (Value 9), ValidationAcc 0 10 (Value 1003)]\<rparr>"
    by code_simp
  from run have "train ?g 0 ?tr ?val 1
      = Inr \<lparr>variables = 10, iteration = 10,
            printed = [TrainingLoss 1 0 (Value 0), TrainingLoss 1 1 (Value 1),
                       TrainingLoss 1 2 (Value 2), TrainingLoss 1 3 (Value 3),
                       TrainingLoss 1 4 (Value 4), ValidationAcc 0 5 (Value 503),
                       TrainingLoss 1 5 (Value 5), TrainingLoss 1 6 (Value 6),
                       TrainingLoss 1 7 (Value 7), TrainingLoss 1 8 (Value 8),
                       TrainingLoss 1 9 (Value 9), ValidationAcc 0 10 (Value 1003)]\<rparr>"
    unfolding v .
  with h show ?thesis by (rule conjI)
qed

end
